theory Spec2Isabelle
  imports Complex_Main
begin

section \<open>Data model of \<open>src/App.tsx\<close>\<close>

text \<open>
  The component \<open>App\<close> keeps its whole game in React state cells. Each cell becomes a
  field of the record \<open>game\<close>. JavaScript numbers that only ever hold integers are
  \<open>int\<close>; slot ids and the sparkle counter are \<open>nat\<close>; numbers coming from
  \<open>Math.random()\<close> or from a DOM rectangle are \<open>rat\<close> (every double is a rational).
\<close>

datatype phase = Idle | Playing | Ended

record TVState =
  tv_id :: nat
  isVisible :: bool
  isSmashed :: bool
  showScore :: bool

record Sparkle =
  sparkle_id :: nat
  sparkle_x :: rat
  sparkle_y :: rat

text \<open>What \<open>getBoundingClientRect()\<close> of the click target returns.\<close>

record DOMRect =
  rect_left :: rat
  rect_top :: rat
  rect_width :: rat
  rect_height :: rat

text \<open>
  The two one-shot callbacks that \<open>smashTV\<close> hands to \<open>setTimeout\<close>. The source keeps no
  handle to them and never calls \<open>clearTimeout\<close>; the pending ones are a field of the state.
\<close>

datatype timeout = RemoveSparkle nat | HideTV nat

text \<open>
  \<open>storage\<close> is the entry \<open>clanker-highscore\<close> of \<open>localStorage\<close>: absent, or the decimal
  string the program wrote with \<open>score.toString()\<close>, read back with \<open>parseInt\<close>; it is kept
  as the integer that string denotes.
\<close>

record game =
  score :: int
  highScore :: int
  timeLeft :: int
  gameState :: phase
  tvs :: "TVState list"
  sparkles :: "Sparkle list"
  combo :: int
  missedCount :: int
  sparkleIdRef :: nat
  timeouts :: "timeout list"
  storage :: "int option"

section \<open>Operations\<close>

text \<open>\<open>Array.from({ length: 9 }, (_, i) => ({ id: i, isVisible: false, ... }))\<close>\<close>

definition fresh_tvs :: "TVState list" where
  "fresh_tvs =
     map (\<lambda>i. \<lparr>tv_id = i, isVisible = False, isSmashed = False, showScore = False\<rparr>) [0..<9]"

text \<open>The state at mount, with \<open>saved\<close> the content of the storage entry.\<close>

definition initial :: "int option \<Rightarrow> game" where
  "initial saved =
     \<lparr>score = 0,
      highScore = (case saved of Some v \<Rightarrow> v | None \<Rightarrow> 0),
      timeLeft = 30,
      gameState = Idle,
      tvs = fresh_tvs,
      sparkles = [],
      combo = 0,
      missedCount = 0,
      sparkleIdRef = 0,
      timeouts = [],
      storage = saved\<rparr>"

definition startGame :: "game \<Rightarrow> game" where
  "startGame s =
     s\<lparr>score := 0, timeLeft := 30, gameState := Playing, combo := 0, missedCount := 0,
       tvs := fresh_tvs\<rparr>"

text \<open>The callback of the one-second interval.\<close>

definition timerTick :: "game \<Rightarrow> game" where
  "timerTick s =
     (if timeLeft s \<le> 1 then s\<lparr>gameState := Ended, timeLeft := 0\<rparr>
      else s\<lparr>timeLeft := timeLeft s - 1\<rparr>)"

text \<open>The body of the effect that saves the high score.\<close>

definition saveHighScore :: "game \<Rightarrow> game" where
  "saveHighScore s =
     (if gameState s = Ended \<and> score s > highScore s
      then s\<lparr>highScore := score s, storage := Some (score s)\<rparr>
      else s)"

text \<open>
  \<open>spawnTV\<close>, with \<open>k\<close> the random index, that is the value that
  \<open>Math.floor(Math.random() * hiddenTvs.length)\<close> takes in this firing. The product is a
  product of doubles, rounded; it is not computed here, its floor is the input. Indexing
  \<open>hiddenTvs\<close> out of range gives \<open>undefined\<close> in JavaScript and \<open>randomTv.id\<close> then
  throws: that is \<open>None\<close>.
\<close>

definition spawnTV :: "nat \<Rightarrow> TVState list \<Rightarrow> TVState list option" where
  "spawnTV k prev =
     (let hiddenTvs = filter (\<lambda>tv. \<not> isVisible tv \<and> \<not> isSmashed tv) prev in
      if length hiddenTvs = 0 then Some prev
      else if k < length hiddenTvs then
        let randomTv = hiddenTvs ! k in
        Some (map (\<lambda>tv. if tv_id tv = tv_id randomTv
                         then tv\<lparr>isVisible := True, isSmashed := False, showScore := False\<rparr>
                         else tv) prev)
      else None)"

text \<open>
  The literal \<open>0.15\<close> of the source is the double nearest to it, and the comparison
  \<open>Math.random() < 0.15\<close> is exact on doubles: the threshold is that double's value.
\<close>

definition escape_threshold :: rat where
  "escape_threshold = 5404319552844595 / 36028797018963968"

text \<open>
  The \<open>prev.map\<close> of the auto-hide interval. \<open>rnd k\<close> is what the \<open>k\<close>-th call of
  \<open>Math.random()\<close> in this firing returns; a call is made only for a slot that is visible
  and not smashed. The pair is \<open>(combo, missedCount)\<close>, which the callback sets on every
  escape with \<open>setCombo(0)\<close> and \<open>setMissedCount(c => c + 1)\<close>.
\<close>

fun checkTvs_map :: "(nat \<Rightarrow> rat) \<Rightarrow> nat \<Rightarrow> int \<times> int \<Rightarrow> TVState list
    \<Rightarrow> TVState list \<times> (int \<times> int)" where
  "checkTvs_map rnd k cm [] = ([], cm)"
| "checkTvs_map rnd k (c, m) (tv # rest) =
     (if isVisible tv \<and> \<not> isSmashed tv then
        (if rnd k < escape_threshold then
           (case checkTvs_map rnd (Suc k) (0, m + 1) rest of
              (rest', cm') \<Rightarrow> (tv\<lparr>isVisible := False\<rparr> # rest', cm'))
         else
           (case checkTvs_map rnd (Suc k) (c, m) rest of
              (rest', cm') \<Rightarrow> (tv # rest', cm')))
      else
        (case checkTvs_map rnd k (c, m) rest of
           (rest', cm') \<Rightarrow> (tv # rest', cm')))"

definition checkTvs :: "(nat \<Rightarrow> rat) \<Rightarrow> game \<Rightarrow> game" where
  "checkTvs rnd s =
     (case checkTvs_map rnd 0 (combo s, missedCount s) (tvs s) of
        (newTvs, (c, m)) \<Rightarrow> s\<lparr>tvs := newTvs, combo := c, missedCount := m\<rparr>)"

text \<open>
  \<open>smashTV(id, e)\<close>. The callback is made by \<open>useCallback\<close> with the dependencies
  \<open>[gameState, combo]\<close>: it reads \<open>gameState\<close> and \<open>combo\<close> as the render that made it saw
  them, here \<open>g\<close> and \<open>c\<close>. The slots, the score and the sparkles are changed through
  updater functions, which get the latest value, and the sparkle counter is a ref; these
  are read from the state \<open>s\<close> the call meets. Only the update of \<open>tvs\<close> sits behind the
  check of the slot; the combo, the score, the sparkle and the two timeouts come after
  it, unconditionally.
\<close>

definition smashTV_closure :: "phase \<Rightarrow> int \<Rightarrow> nat \<Rightarrow> DOMRect \<Rightarrow> game \<Rightarrow> game" where
  "smashTV_closure g c i rect s =
     (if g \<noteq> Playing then s
      else
        let newTvs =
              (case find (\<lambda>t. tv_id t = i) (tvs s) of
                 None \<Rightarrow> tvs s
               | Some tv \<Rightarrow>
                   if \<not> isVisible tv \<or> isSmashed tv then tvs s
                   else map (\<lambda>t. if tv_id t = i
                                   then t\<lparr>isSmashed := True, showScore := True\<rparr>
                                   else t) (tvs s));
            newCombo = c + 1;
            points = 100 * min newCombo 5;
            sparkleId = sparkleIdRef s
        in s\<lparr>tvs := newTvs,
             combo := newCombo,
             score := score s + points,
             sparkleIdRef := sparkleId + 1,
             sparkles := sparkles s @
               [\<lparr>sparkle_id = sparkleId,
                 sparkle_x = rect_left rect + rect_width rect / 2,
                 sparkle_y = rect_top rect + rect_height rect / 2\<rparr>],
             timeouts := timeouts s @ [RemoveSparkle sparkleId, HideTV i]\<rparr>)"

text \<open>The callback of the render that shows the state it is called in.\<close>

definition smashTV :: "nat \<Rightarrow> DOMRect \<Rightarrow> game \<Rightarrow> game" where
  "smashTV i rect s = smashTV_closure (gameState s) (combo s) i rect s"

text \<open>The \<open>onClick\<close> of \<open>GameHole\<close>, for the slot \<open>tv\<close> it renders.\<close>

definition holeClick :: "TVState \<Rightarrow> DOMRect \<Rightarrow> game \<Rightarrow> game" where
  "holeClick tv rect s =
     (if isVisible tv \<and> \<not> isSmashed tv then smashTV (tv_id tv) rect s else s)"

text \<open>
  A click on hole \<open>n\<close> that is handled by what an earlier render made: the state was
  \<open>seen\<close> at that render, a timer callback has changed it to \<open>s\<close> since, and the component
  has not been rendered again yet. The grid, the slot of the hole and the \<open>smashTV\<close>
  passed to it are those of \<open>seen\<close>.
\<close>

definition staleClick :: "game \<Rightarrow> nat \<Rightarrow> DOMRect \<Rightarrow> game \<Rightarrow> game" where
  "staleClick seen n rect s =
     (if gameState seen = Playing \<and> n < length (tvs seen) then
        (if isVisible (tvs seen ! n) \<and> \<not> isSmashed (tvs seen ! n)
         then smashTV_closure (gameState seen) (combo seen) (tv_id (tvs seen ! n)) rect s
         else s)
      else s)"

text \<open>The bodies of the two delayed callbacks.\<close>

fun runTimeout :: "timeout \<Rightarrow> game \<Rightarrow> game" where
  "runTimeout (RemoveSparkle sparkleId) s =
     s\<lparr>sparkles := filter (\<lambda>sp. sparkle_id sp \<noteq> sparkleId) (sparkles s)\<rparr>"
| "runTimeout (HideTV i) s =
     s\<lparr>tvs := map (\<lambda>t. if tv_id t = i
                        then t\<lparr>isVisible := False, isSmashed := False, showScore := False\<rparr>
                        else t) (tvs s)\<rparr>"

section \<open>Events\<close>

text \<open>
  Everything that happens to the component is one of these events. Each is handled to
  completion, with its state updates applied (an updater function runs once) and the
  component rendered again, before the next one: the handlers of \<open>step\<close> are those of
  the current render. (A click that arrives between a timer callback and the render
  after it is \<open>staleClick\<close>; it is not among these events.) An event whose handler is
  not installed in the current state leaves the state alone:
  \<^item> the two buttons bound to \<open>startGame\<close> are rendered only when idle or ended;
  \<^item> the three intervals exist only while \<open>gameState\<close> is \<open>playing\<close> (their effects
    return early otherwise, and their cleanup clears them);
  \<^item> the grid of \<open>GameHole\<close>s is rendered only while playing, one hole per element of
    \<open>tvs\<close>; \<open>Click n\<close> is a click on the \<open>n\<close>-th hole;
  \<^item> \<open>Timeout k\<close> fires the \<open>k\<close>-th pending delayed callback, which is then no longer
    pending.
  \<open>Spawn k\<close> is a firing of the spawn interval in which the random index is \<open>k\<close>. For a
  double \<open>r\<close> in \<open>[0, 1)\<close> and a length \<open>n\<close>, JavaScript's \<open>Math.floor(r * n)\<close> is below \<open>n\<close>;
  \<open>Spawn k\<close> with \<open>k\<close> not below the number of hidden slots is no event.
\<close>

datatype event =
    Start
  | Tick
  | Spawn nat
  | Escape "nat \<Rightarrow> rat"
  | Click nat DOMRect
  | Timeout nat

fun handle :: "event \<Rightarrow> game \<Rightarrow> game" where
  "handle Start s =
     (if gameState s = Idle \<or> gameState s = Ended then startGame s else s)"
| "handle Tick s = (if gameState s = Playing then timerTick s else s)"
| "handle (Spawn k) s =
     (if gameState s = Playing then
        (case spawnTV k (tvs s) of Some newTvs \<Rightarrow> s\<lparr>tvs := newTvs\<rparr> | None \<Rightarrow> s)
      else s)"
| "handle (Escape rnd) s = (if gameState s = Playing then checkTvs rnd s else s)"
| "handle (Click n rect) s =
     (if gameState s = Playing \<and> n < length (tvs s) then holeClick (tvs s ! n) rect s
      else s)"
| "handle (Timeout k) s =
     (if k < length (timeouts s) then
        runTimeout (timeouts s ! k)
          (s\<lparr>timeouts := take k (timeouts s) @ drop (Suc k) (timeouts s)\<rparr>)
      else s)"

text \<open>
  After the render that follows an event, the save effect runs if one of its
  dependencies \<open>[gameState, score, highScore]\<close> changed.
\<close>

definition step :: "event \<Rightarrow> game \<Rightarrow> game" where
  "step e s =
     (let s' = handle e s in
      if gameState s' \<noteq> gameState s \<or> score s' \<noteq> score s \<or> highScore s' \<noteq> highScore s
      then saveHighScore s' else s')"

fun run :: "event list \<Rightarrow> game \<Rightarrow> game" where
  "run [] s = s"
| "run (e # es) s = run es (step e s)"

inductive reachable :: "game \<Rightarrow> bool" where
  reachable_initial: "reachable (initial saved)"
| reachable_step: "reachable s \<Longrightarrow> reachable (step e s)"

section \<open>Properties of states\<close>

text \<open>
  A slot is hidden and unstruck, revealed and unstruck, or revealed and struck: a struck
  slot is a revealed one. The nine slots carry the ids 0 to 8, in this order.
\<close>

definition struck_implies_revealed :: "TVState list \<Rightarrow> bool" where
  "struck_implies_revealed xs = list_all (\<lambda>tv. isSmashed tv \<longrightarrow> isVisible tv) xs"

definition slots_inv :: "game \<Rightarrow> bool" where
  "slots_inv s = (map tv_id (tvs s) = [0..<9] \<and> struck_implies_revealed (tvs s))"

text \<open>A rectangle for the concrete runs below: its centre is \<open>(5, 5)\<close>.\<close>

definition sample_rect :: DOMRect where
  "sample_rect = \<lparr>rect_left = 0, rect_top = 0, rect_width = 10, rect_height = 10\<rparr>"

text \<open>
  The escape monitor, in the words of its description. A slot is live when it is
  revealed and unstruck. \<open>draw_of xs j\<close> is the number of the call of \<open>Math.random()\<close>
  made for slot \<open>j\<close>: calls are made for live slots only, in the order of the slots.
  Slot \<open>j\<close> escapes when it is live and its draw is below the threshold.
\<close>

definition live :: "TVState \<Rightarrow> bool" where
  "live tv = (isVisible tv \<and> \<not> isSmashed tv)"

definition draw_of :: "TVState list \<Rightarrow> nat \<Rightarrow> nat" where
  "draw_of xs j = length (filter live (take j xs))"

definition slot_escapes :: "(nat \<Rightarrow> rat) \<Rightarrow> TVState list \<Rightarrow> nat \<Rightarrow> bool" where
  "slot_escapes rnd xs j = (live (xs ! j) \<and> rnd (draw_of xs j) < escape_threshold)"

definition escape_count :: "(nat \<Rightarrow> rat) \<Rightarrow> TVState list \<Rightarrow> nat" where
  "escape_count rnd xs = length (filter (slot_escapes rnd xs) [0..<length xs])"

text \<open>
  Counting along a run of events: the clock ticks in it, the steps that take the phase
  from playing to ended, and the steps in which the save effect writes the high score.
\<close>

fun is_Tick :: "event \<Rightarrow> bool" where
  "is_Tick Tick = True"
| "is_Tick _ = False"

definition ticks :: "event list \<Rightarrow> nat" where
  "ticks es = length (filter is_Tick es)"

fun endings :: "event list \<Rightarrow> game \<Rightarrow> nat" where
  "endings [] s = 0"
| "endings (e # es) s =
     (if gameState s = Playing \<and> gameState (step e s) = Ended then 1 else 0)
     + endings es (step e s)"

fun settlements :: "event list \<Rightarrow> game \<Rightarrow> nat" where
  "settlements [] s = 0"
| "settlements (e # es) s =
     (if highScore (step e s) \<noteq> highScore s \<or> storage (step e s) \<noteq> storage s then 1 else 0)
     + settlements es (step e s)"

text \<open>The clock in each phase: 30 before the first round, 1 to 30 in a round, 0 after it.\<close>

definition clock_inv :: "game \<Rightarrow> bool" where
  "clock_inv s =
     (case gameState s of
        Idle \<Rightarrow> timeLeft s = 30
      | Playing \<Rightarrow> 1 \<le> timeLeft s \<and> timeLeft s \<le> 30
      | Ended \<Rightarrow> timeLeft s = 0)"

text \<open>A click on hole \<open>n\<close> is a valid strike when the grid is up and the slot is live.\<close>

definition valid_strike :: "nat \<Rightarrow> game \<Rightarrow> bool" where
  "valid_strike n s =
     (gameState s = Playing \<and> n < length (tvs s)
      \<and> isVisible (tvs s ! n) \<and> \<not> isSmashed (tvs s ! n))"

text \<open>
  Along a run of events: the number of valid strikes, and whether the run is free of
  the start button and of escapes (a firing of the monitor in which no slot escapes
  does not interrupt).
\<close>

fun strikes_in :: "event list \<Rightarrow> game \<Rightarrow> nat" where
  "strikes_in [] s = 0"
| "strikes_in (e # es) s =
     (case e of Click n rect \<Rightarrow> if valid_strike n s then 1 else 0 | _ \<Rightarrow> 0)
     + strikes_in es (step e s)"

fun uninterrupted :: "event list \<Rightarrow> game \<Rightarrow> bool" where
  "uninterrupted [] s = True"
| "uninterrupted (e # es) s =
     ((case e of
         Start \<Rightarrow> False
       | Escape rnd \<Rightarrow> gameState s \<noteq> Playing \<or> escape_count rnd (tvs s) = 0
       | _ \<Rightarrow> True)
      \<and> uninterrupted es (step e s))"

section \<open>Timers\<close>

text \<open>
  The events above carry no time. What the delays of the source's timers say about their
  order is kept beside the game, in milliseconds:
  \<^item> \<open>now\<close>, the time of the last event;
  \<^item> \<open>epoch\<close>, the number of rounds started so far;
  \<^item> \<open>tickDue\<close> and \<open>escapeDue\<close>, the times before which the next callback of
    \<open>setInterval(..., 1000)\<close> and of \<open>setInterval(..., 500)\<close> cannot run;
  \<^item> \<open>spawnSince\<close>, the time from which the delay of the spawn interval counts: its
    effect has the dependencies \<open>[gameState, timeLeft]\<close>, so the interval is cleared and
    set again after the start and after every tick;
  \<^item> \<open>stamps\<close>, for each pending delayed callback, in the order of \<open>timeouts\<close>: the time
    it is due, its delay (500 for the sparkle, 300 for the reversion) and the round in
    which \<open>smashTV\<close> scheduled it.
\<close>

record timing =
  now :: int
  epoch :: nat
  tickDue :: int
  escapeDue :: int
  spawnSince :: int
  stamps :: "(int \<times> int \<times> nat) list"

definition timing0 :: timing where
  "timing0 = \<lparr>now = 0, epoch = 0, tickDue = 0, escapeDue = 0, spawnSince = 0, stamps = []\<rparr>"

text \<open>\<open>Math.max(400, 1200 - (30 - timeLeft) * 30)\<close>; the spawn delay is this plus
  \<open>Math.random() * 400\<close>, which is not negative.\<close>

definition baseInterval :: "int \<Rightarrow> int" where
  "baseInterval remaining = max 400 (1200 - (30 - remaining) * 30)"

text \<open>
  When an event can happen. A timer callback does not run before it is due. And a timer
  does not run before a timer that was started earlier with a delay no greater than its
  own (the timer initialisation steps of HTML): the spawn interval of a round is started
  after the start of the round, with a delay of at least \<open>baseInterval\<close>, so when it
  fires, no callback that an earlier round scheduled with at most that delay is still
  pending. Clicks and the start button can come at any time.
\<close>

fun on_time :: "int \<Rightarrow> event \<Rightarrow> timing \<Rightarrow> game \<Rightarrow> bool" where
  "on_time t Start c s = True"
| "on_time t Tick c s = (gameState s = Playing \<longrightarrow> tickDue c \<le> t)"
| "on_time t (Spawn k) c s =
     (gameState s = Playing \<longrightarrow>
        spawnSince c + baseInterval (timeLeft s) \<le> t
        \<and> list_all (\<lambda>(due, delay, ep). ep = epoch c \<or> baseInterval (timeLeft s) < delay)
            (stamps c))"
| "on_time t (Escape rnd) c s = (gameState s = Playing \<longrightarrow> escapeDue c \<le> t)"
| "on_time t (Click n rect) c s = True"
| "on_time t (Timeout k) c s = (k < length (stamps c) \<longrightarrow> fst (stamps c ! k) \<le> t)"

fun advance :: "int \<Rightarrow> event \<Rightarrow> timing \<Rightarrow> game \<Rightarrow> timing" where
  "advance t Start c s =
     (if gameState s = Idle \<or> gameState s = Ended
      then c\<lparr>now := t, epoch := epoch c + 1, tickDue := t + 1000, escapeDue := t + 500,
             spawnSince := t\<rparr>
      else c\<lparr>now := t\<rparr>)"
| "advance t Tick c s =
     (if gameState s = Playing then c\<lparr>now := t, tickDue := tickDue c + 1000, spawnSince := t\<rparr>
      else c\<lparr>now := t\<rparr>)"
| "advance t (Spawn k) c s =
     (if gameState s = Playing
      then c\<lparr>now := t, spawnSince := spawnSince c + baseInterval (timeLeft s)\<rparr>
      else c\<lparr>now := t\<rparr>)"
| "advance t (Escape rnd) c s =
     (if gameState s = Playing then c\<lparr>now := t, escapeDue := escapeDue c + 500\<rparr>
      else c\<lparr>now := t\<rparr>)"
| "advance t (Click n rect) c s =
     (if valid_strike n s
      then c\<lparr>now := t, stamps := stamps c @ [(t + 500, 500, epoch c), (t + 300, 300, epoch c)]\<rparr>
      else c\<lparr>now := t\<rparr>)"
| "advance t (Timeout k) c s =
     (if k < length (stamps c)
      then c\<lparr>now := t, stamps := take k (stamps c) @ drop (Suc k) (stamps c)\<rparr>
      else c\<lparr>now := t\<rparr>)"

text \<open>A timed event is refused (\<open>None\<close>) when time would run backwards or the event is early.\<close>

definition tstep :: "int \<times> event \<Rightarrow> timing \<times> game \<Rightarrow> (timing \<times> game) option" where
  "tstep te cs =
     (if now (fst cs) \<le> fst te \<and> on_time (fst te) (snd te) (fst cs) (snd cs)
      then Some (advance (fst te) (snd te) (fst cs) (snd cs), step (snd te) (snd cs))
      else None)"

fun timed_run :: "(int \<times> event) list \<Rightarrow> timing \<times> game \<Rightarrow> (timing \<times> game) option" where
  "timed_run [] cs = Some cs"
| "timed_run (te # tes) cs =
     (case tstep te cs of None \<Rightarrow> None | Some cs' \<Rightarrow> timed_run tes cs')"

text \<open>
  \<open>stamp_round c k\<close> is the round in which the \<open>k\<close>-th pending callback was scheduled; a
  reversion is stale when that round is before the current one. The invariant of timed
  runs: the stamps match the pending callbacks, a reversion has delay 300, no stamp is
  from the future, and while a stale reversion is pending every slot is hidden, unstruck
  and without score label.
\<close>

definition stamp_round :: "timing \<Rightarrow> nat \<Rightarrow> nat" where
  "stamp_round c k = snd (snd (stamps c ! k))"

definition all_hidden :: "TVState list \<Rightarrow> bool" where
  "all_hidden xs = list_all (\<lambda>tv. \<not> isVisible tv \<and> \<not> isSmashed tv \<and> \<not> showScore tv) xs"

fun stale_reversion :: "nat \<Rightarrow> timeout \<times> int \<times> int \<times> nat \<Rightarrow> bool" where
  "stale_reversion ep (HideTV i, due, delay, r) = (r < ep)"
| "stale_reversion ep (RemoveSparkle i, due, delay, r) = False"

fun stamp_ok :: "nat \<Rightarrow> timeout \<times> int \<times> int \<times> nat \<Rightarrow> bool" where
  "stamp_ok ep (HideTV i, due, delay, r) = (r \<le> ep \<and> delay = 300)"
| "stamp_ok ep (RemoveSparkle i, due, delay, r) = (r \<le> ep)"

definition timing_inv :: "timing \<times> game \<Rightarrow> bool" where
  "timing_inv cs =
     (length (stamps (fst cs)) = length (timeouts (snd cs))
      \<and> list_all (stamp_ok (epoch (fst cs))) (zip (timeouts (snd cs)) (stamps (fst cs)))
      \<and> (list_ex (stale_reversion (epoch (fst cs))) (zip (timeouts (snd cs)) (stamps (fst cs)))
           \<longrightarrow> all_hidden (tvs (snd cs))))"

text \<open>
  A round by the clock, for the concrete runs below. The escape monitor fires every
  500 ms and lets nothing escape (every draw is \<open>1/2\<close>); the clock ticks every second;
  from second 20 on, where the spawn delay is below a second whatever the jitter, the
  spawner fires 700 ms after each tick and reveals the first hidden slot. Slot 0 is
  struck at 29900, a tenth of a second before the last tick.
\<close>

definition quiet :: "nat \<Rightarrow> rat" where
  "quiet k = 1 / 2"

definition late_strike_round :: "(int \<times> event) list" where
  "late_strike_round =
     (0, Start)
     # concat (map (\<lambda>i. [(1000 * int i - 500, Escape quiet),
                          (1000 * int i, Escape quiet),
                          (1000 * int i, Tick)]) [1..<21])
     @ concat (map (\<lambda>i. [(1000 * int i - 500, Escape quiet),
                          (1000 * int i - 300, Spawn 0),
                          (1000 * int i, Escape quiet),
                          (1000 * int i, Tick)]) [21..<30])
     @ [(29500, Escape quiet), (29700, Spawn 0), (29900, Click 0 sample_rect),
        (30000, Escape quiet), (30000, Tick)]"

section \<open>Round reset\<close>

lemma startGame_fields:
  "score (startGame s) = 0" "timeLeft (startGame s) = 30" "gameState (startGame s) = Playing"
  "combo (startGame s) = 0" "missedCount (startGame s) = 0" "tvs (startGame s) = fresh_tvs"
  "highScore (startGame s) = highScore s" "timeouts (startGame s) = timeouts s"
  "sparkles (startGame s) = sparkles s" "storage (startGame s) = storage s"
  "sparkleIdRef (startGame s) = sparkleIdRef s"
  by (simp_all add: startGame_def)

lemma saveHighScore_Playing: "gameState s = Playing \<Longrightarrow> saveHighScore s = s"
  by (simp add: saveHighScore_def)

lemma step_Start: "gameState s = Idle \<or> gameState s = Ended \<Longrightarrow> step Start s = startGame s"
  by (auto simp: step_def Let_def saveHighScore_Playing startGame_fields)

lemma fresh_tvs_hidden:
  "length fresh_tvs = 9" "tv \<in> set fresh_tvs \<Longrightarrow> \<not> isVisible tv \<and> \<not> isSmashed tv"
  by (auto simp: fresh_tvs_def)

text \<open>
  C5. From a state whose phase is idle or ended, the start action gives the state with
  nine slots, all hidden and unstruck, score 0, combo 0, missedCount 0, timeLeft 30 and
  phase playing.
\<close>

theorem start_resets_round:
  assumes "gameState s = Idle \<or> gameState s = Ended"
  shows "length (tvs (step Start s)) = 9
       \<and> (\<forall>tv \<in> set (tvs (step Start s)). \<not> isVisible tv \<and> \<not> isSmashed tv)
       \<and> map tv_id (tvs (step Start s)) = [0..<9]
       \<and> score (step Start s) = 0
       \<and> combo (step Start s) = 0
       \<and> missedCount (step Start s) = 0
       \<and> timeLeft (step Start s) = 30
       \<and> gameState (step Start s) = Playing"
proof -
  have "map tv_id fresh_tvs = [0..<9]"
    by (simp add: fresh_tvs_def comp_def)
  with assms show ?thesis
    by (simp add: step_Start startGame_fields fresh_tvs_hidden)
qed

theorem start_resets_round_witness:
  "gameState (run ([Start, Spawn 0, Escape (\<lambda>k. 0), Spawn 0, Click 0 sample_rect, Spawn 0]
      @ replicate 30 Tick) (initial None)) = Ended
   \<and> score (run ([Start, Spawn 0, Escape (\<lambda>k. 0), Spawn 0, Click 0 sample_rect, Spawn 0]
      @ replicate 30 Tick) (initial None)) = 100
   \<and> combo (run ([Start, Spawn 0, Escape (\<lambda>k. 0), Spawn 0, Click 0 sample_rect, Spawn 0]
      @ replicate 30 Tick) (initial None)) = 1
   \<and> missedCount (run ([Start, Spawn 0, Escape (\<lambda>k. 0), Spawn 0, Click 0 sample_rect, Spawn 0]
      @ replicate 30 Tick) (initial None)) = 1
   \<and> timeLeft (run ([Start, Spawn 0, Escape (\<lambda>k. 0), Spawn 0, Click 0 sample_rect, Spawn 0]
      @ replicate 30 Tick) (initial None)) = 0
   \<and> take 2 (tvs (run ([Start, Spawn 0, Escape (\<lambda>k. 0), Spawn 0, Click 0 sample_rect, Spawn 0]
      @ replicate 30 Tick) (initial None)))
       = [\<lparr>tv_id = 0, isVisible = True, isSmashed = True, showScore = True\<rparr>,
          \<lparr>tv_id = 1, isVisible = True, isSmashed = False, showScore = False\<rparr>]
   \<and> gameState (step Start (run ([Start, Spawn 0, Escape (\<lambda>k. 0), Spawn 0, Click 0 sample_rect,
      Spawn 0] @ replicate 30 Tick) (initial None))) = Playing
   \<and> score (step Start (run ([Start, Spawn 0, Escape (\<lambda>k. 0), Spawn 0, Click 0 sample_rect,
      Spawn 0] @ replicate 30 Tick) (initial None))) = 0
   \<and> combo (step Start (run ([Start, Spawn 0, Escape (\<lambda>k. 0), Spawn 0, Click 0 sample_rect,
      Spawn 0] @ replicate 30 Tick) (initial None))) = 0
   \<and> missedCount (step Start (run ([Start, Spawn 0, Escape (\<lambda>k. 0), Spawn 0, Click 0 sample_rect,
      Spawn 0] @ replicate 30 Tick) (initial None))) = 0
   \<and> timeLeft (step Start (run ([Start, Spawn 0, Escape (\<lambda>k. 0), Spawn 0, Click 0 sample_rect,
      Spawn 0] @ replicate 30 Tick) (initial None))) = 30
   \<and> length (tvs (step Start (run ([Start, Spawn 0, Escape (\<lambda>k. 0), Spawn 0, Click 0 sample_rect,
      Spawn 0] @ replicate 30 Tick) (initial None)))) = 9
   \<and> list_all (\<lambda>tv. \<not> isVisible tv \<and> \<not> isSmashed tv)
        (tvs (step Start (run ([Start, Spawn 0, Escape (\<lambda>k. 0), Spawn 0, Click 0 sample_rect,
          Spawn 0] @ replicate 30 Tick) (initial None))))
   \<and> gameState (initial None) = Idle
   \<and> gameState (step Start (initial None)) = Playing"
proof -
  let ?s = "run ([Start, Spawn 0, Escape (\<lambda>k. 0), Spawn 0, Click 0 sample_rect, Spawn 0]
      @ replicate 30 Tick) (initial None)"
  have before: "gameState ?s = Ended" "score ?s = 100" "combo ?s = 1" "missedCount ?s = 1"
    "timeLeft ?s = 0"
    "take 2 (tvs ?s)
       = [\<lparr>tv_id = 0, isVisible = True, isSmashed = True, showScore = True\<rparr>,
          \<lparr>tv_id = 1, isVisible = True, isSmashed = False, showScore = False\<rparr>]"
    by code_simp+
  have i: "gameState (initial None) = Idle"
    by (simp add: initial_def)
  from before(1) have h: "gameState ?s = Idle \<or> gameState ?s = Ended"
    by simp
  note after = start_resets_round [OF h]
  from i have "gameState (initial None) = Idle \<or> gameState (initial None) = Ended"
    by simp
  note idle = start_resets_round [OF this]
  from after have "list_all (\<lambda>tv. \<not> isVisible tv \<and> \<not> isSmashed tv) (tvs (step Start ?s))"
    by (simp add: list_all_iff)
  with before after idle i show ?thesis
    by blast
qed

section \<open>Spawning\<close>

text \<open>With an index below the number of hidden slots \<open>spawnTV\<close> does not throw.\<close>

lemma spawnTV_defined:
  assumes "k < length (filter (\<lambda>tv. \<not> isVisible tv \<and> \<not> isSmashed tv) prev)"
  shows "\<exists>newTvs. spawnTV k prev = Some newTvs"
  using assms by (simp add: spawnTV_def Let_def)

section \<open>Frame lemmas\<close>

lemma saveHighScore_frame:
  "tvs (saveHighScore s) = tvs s" "score (saveHighScore s) = score s"
  "combo (saveHighScore s) = combo s" "missedCount (saveHighScore s) = missedCount s"
  "timeLeft (saveHighScore s) = timeLeft s" "gameState (saveHighScore s) = gameState s"
  "sparkles (saveHighScore s) = sparkles s" "timeouts (saveHighScore s) = timeouts s"
  "sparkleIdRef (saveHighScore s) = sparkleIdRef s"
  by (simp_all add: saveHighScore_def)

lemma step_frame:
  "tvs (step e s) = tvs (handle e s)" "score (step e s) = score (handle e s)"
  "combo (step e s) = combo (handle e s)" "missedCount (step e s) = missedCount (handle e s)"
  "timeLeft (step e s) = timeLeft (handle e s)" "gameState (step e s) = gameState (handle e s)"
  "sparkles (step e s) = sparkles (handle e s)" "timeouts (step e s) = timeouts (handle e s)"
  "sparkleIdRef (step e s) = sparkleIdRef (handle e s)"
  by (simp_all add: step_def Let_def saveHighScore_frame)

lemma fresh_tvs_ids: "map tv_id fresh_tvs = [0..<9]"
  by (simp add: fresh_tvs_def comp_def)

lemma fresh_tvs_inv: "struck_implies_revealed fresh_tvs"
  by (simp add: struck_implies_revealed_def fresh_tvs_def list_all_iff)

lemma map_keeps_ids:
  "(\<And>t. t \<in> set xs \<Longrightarrow> tv_id (f t) = tv_id t) \<Longrightarrow> map tv_id (map f xs) = map tv_id xs"
  by (induction xs) auto

lemma checkTvs_map_ids: "map tv_id (fst (checkTvs_map rnd k cm xs)) = map tv_id xs"
  by (induction rnd k cm xs rule: checkTvs_map.induct) (auto split: prod.splits)

lemma checkTvs_map_inv:
  "struck_implies_revealed xs \<Longrightarrow> struck_implies_revealed (fst (checkTvs_map rnd k cm xs))"
  by (induction rnd k cm xs rule: checkTvs_map.induct)
     (auto simp: struck_implies_revealed_def split: prod.splits)

lemma checkTvs_tvs: "tvs (checkTvs rnd s) = fst (checkTvs_map rnd 0 (combo s, missedCount s) (tvs s))"
  by (simp add: checkTvs_def split: prod.splits)

lemma spawnTV_ids: "spawnTV k xs = Some ys \<Longrightarrow> map tv_id ys = map tv_id xs"
  by (auto simp: spawnTV_def Let_def split: if_splits intro!: map_keeps_ids)

lemma spawnTV_inv:
  "spawnTV k xs = Some ys \<Longrightarrow> struck_implies_revealed xs \<Longrightarrow> struck_implies_revealed ys"
  by (auto simp: spawnTV_def Let_def struck_implies_revealed_def list_all_iff split: if_splits)

lemma find_unique_id:
  assumes "distinct (map tv_id xs)" "find (\<lambda>t. tv_id t = i) xs = Some tv"
    "t \<in> set xs" "tv_id t = i"
  shows "t = tv"
proof -
  from assms(2) have "tv \<in> set xs" "tv_id tv = i"
    by (auto simp: find_Some_iff)
  moreover from assms(1) have "inj_on tv_id (set xs)"
    by (simp add: distinct_map)
  ultimately show ?thesis
    using assms(3,4) by (auto dest: inj_onD)
qed

lemma smashTV_ids: "map tv_id (tvs (smashTV i rect s)) = map tv_id (tvs s)"
  by (auto simp: smashTV_def smashTV_closure_def Let_def split: option.splits intro!: map_keeps_ids)

lemma smashTV_inv:
  assumes "distinct (map tv_id (tvs s))" "struck_implies_revealed (tvs s)"
  shows "struck_implies_revealed (tvs (smashTV i rect s))"
proof (cases "find (\<lambda>t. tv_id t = i) (tvs s)")
  case None
  with assms(2) show ?thesis
    by (simp add: smashTV_def smashTV_closure_def Let_def)
next
  case (Some tv)
  show ?thesis
  proof (cases "gameState s = Playing \<and> isVisible tv \<and> \<not> isSmashed tv")
    case False
    with Some assms(2) show ?thesis
      by (auto simp: smashTV_def smashTV_closure_def Let_def)
  next
    case True
    have "isVisible t" if "t \<in> set (tvs s)" "tv_id t = i" for t
      using find_unique_id [OF assms(1) Some that] True by simp
    with Some True assms(2) show ?thesis
      by (auto simp: smashTV_def smashTV_closure_def Let_def struck_implies_revealed_def list_all_iff)
  qed
qed

lemma runTimeout_ids: "map tv_id (tvs (runTimeout t s)) = map tv_id (tvs s)"
  by (cases t) (auto intro!: map_keeps_ids)

lemma runTimeout_inv:
  "struck_implies_revealed (tvs s) \<Longrightarrow> struck_implies_revealed (tvs (runTimeout t s))"
  by (cases t) (auto simp: struck_implies_revealed_def list_all_iff)

lemma slots_inv_smashTV: "slots_inv s \<Longrightarrow> slots_inv (smashTV i rect s)"
  unfolding slots_inv_def
  by (metis smashTV_ids smashTV_inv distinct_upt)

lemma slots_inv_handle: "slots_inv s \<Longrightarrow> slots_inv (handle e s)"
proof (cases e)
  case Start
  then show "slots_inv s \<Longrightarrow> slots_inv (handle e s)"
    by (simp add: slots_inv_def startGame_fields fresh_tvs_ids fresh_tvs_inv)
next
  case Tick
  then show "slots_inv s \<Longrightarrow> slots_inv (handle e s)"
    by (simp add: slots_inv_def timerTick_def)
next
  case (Spawn r)
  then show "slots_inv s \<Longrightarrow> slots_inv (handle e s)"
    by (auto simp: slots_inv_def spawnTV_ids spawnTV_inv split: option.splits)
next
  case (Escape rnd)
  then show "slots_inv s \<Longrightarrow> slots_inv (handle e s)"
    by (simp add: slots_inv_def checkTvs_tvs checkTvs_map_ids checkTvs_map_inv)
next
  case (Click n rect)
  then show "slots_inv s \<Longrightarrow> slots_inv (handle e s)"
    by (simp add: holeClick_def slots_inv_smashTV)
next
  case (Timeout k)
  then show "slots_inv s \<Longrightarrow> slots_inv (handle e s)"
    by (simp add: slots_inv_def runTimeout_ids runTimeout_inv)
qed

lemma slots_inv_step: "slots_inv s \<Longrightarrow> slots_inv (step e s)"
  using slots_inv_handle [of s e] by (simp add: slots_inv_def step_frame)

lemma slots_inv_initial: "slots_inv (initial saved)"
  by (simp add: slots_inv_def initial_def fresh_tvs_ids fresh_tvs_inv)

lemma reachable_slots_inv: "reachable s \<Longrightarrow> slots_inv s"
  by (induction rule: reachable.induct) (simp_all add: slots_inv_initial slots_inv_step)

lemma reachable_run: "reachable s \<Longrightarrow> reachable (run es s)"
  by (induction es arbitrary: s) (simp_all add: reachable_step)

text \<open>
  C7. Every reachable state has the nine slots with a struck slot always revealed (no slot
  is hidden and struck), and every event keeps this: the start button, the clock, a spawn,
  a firing of the escape monitor, a click, a delayed reversion; so does \<open>smashTV\<close> called
  with any id.
\<close>

theorem struck_slots_are_revealed:
  "(reachable s \<longrightarrow> slots_inv s)
   \<and> (slots_inv s \<longrightarrow> slots_inv (step e s))
   \<and> (slots_inv s \<longrightarrow> slots_inv (smashTV i rect s))"
  by (simp add: reachable_slots_inv slots_inv_step slots_inv_smashTV)

theorem struck_slots_are_revealed_witness:
  "reachable (run [Start, Spawn 0, Click 0 sample_rect] (initial None))
   \<and> isSmashed (tvs (run [Start, Spawn 0, Click 0 sample_rect] (initial None)) ! 0)
   \<and> slots_inv (run [Start, Spawn 0, Click 0 sample_rect] (initial None))
   \<and> slots_inv (step (Escape (\<lambda>k. 0)) (run [Start, Spawn 0, Click 0 sample_rect] (initial None)))
   \<and> slots_inv (smashTV 0 sample_rect (run [Start, Spawn 0, Click 0 sample_rect] (initial None)))"
proof -
  let ?s = "run [Start, Spawn 0, Click 0 sample_rect] (initial None)"
  have r: "reachable ?s"
    by (rule reachable_run) (rule reachable_initial)
  have i: "slots_inv ?s"
    using struck_slots_are_revealed [of ?s] r by blast
  have "slots_inv (step (Escape (\<lambda>k. 0)) ?s)"
    using struck_slots_are_revealed [of ?s "Escape (\<lambda>k. 0)"] i by blast
  moreover have "slots_inv (smashTV 0 sample_rect ?s)"
    using struck_slots_are_revealed [of ?s _ 0 sample_rect] i by blast
  moreover have "isSmashed (tvs ?s ! 0)"
    by code_simp
  ultimately show ?thesis
    using r i by blast
qed

section \<open>Strikes\<close>

lemma smashTV_not_playing: "gameState s \<noteq> Playing \<Longrightarrow> smashTV i rect s = s"
  by (simp add: smashTV_def smashTV_closure_def)

text \<open>
  C9. In a state whose phase is not playing, a strike on any slot changes nothing:
  \<open>smashTV\<close> returns at its first line, whatever the id, and so do the click handler of a
  hole and the click event.
\<close>

theorem strike_outside_round_noop:
  assumes "gameState s \<noteq> Playing"
  shows "smashTV i rect s = s \<and> holeClick tv rect s = s \<and> step (Click n rect) s = s"
  using assms by (simp add: smashTV_def smashTV_closure_def holeClick_def step_def)

theorem strike_outside_round_noop_witness:
  "gameState (initial None) \<noteq> Playing
   \<and> smashTV 3 sample_rect (initial None) = initial None
   \<and> step (Click 3 sample_rect) (initial None) = initial None"
proof -
  have h: "gameState (initial None) \<noteq> Playing"
    by (simp add: initial_def)
  from strike_outside_round_noop [OF h] h show ?thesis
    by blast
qed

text \<open>
  The click handler of a hole calls \<open>smashTV\<close> only for a slot that the last render
  shows revealed and unstruck; a click on any other hole changes nothing.
\<close>

lemma click_hidden_or_struck:
  assumes "n < length (tvs s)" "\<not> isVisible (tvs s ! n) \<or> isSmashed (tvs s ! n)"
  shows "step (Click n rect) s = s"
  using assms by (auto simp: step_def holeClick_def)

text \<open>
  C1. A strike on a hidden or already struck slot should change nothing. \<open>smashTV\<close>
  looks the slot up in the latest \<open>tvs\<close> inside its updater, which is where a click that
  raced with an escape is caught; but only the slots are behind that check. In the state
  where slot 0 was revealed and has just escaped, \<open>smashTV 0\<close> while playing leaves the
  slots as they are, and still raises the combo to 1, adds 100 points, adds a sparkle and
  schedules both delayed callbacks.
\<close>

theorem smashTV_escaped_slot_scores:
  "gameState (run [Start, Spawn 0, Escape (\<lambda>k. 0)] (initial None)) = Playing
   \<and> isVisible (tvs (run [Start, Spawn 0] (initial None)) ! 0)
   \<and> \<not> isVisible (tvs (run [Start, Spawn 0, Escape (\<lambda>k. 0)] (initial None)) ! 0)
   \<and> score (run [Start, Spawn 0, Escape (\<lambda>k. 0)] (initial None)) = 0
   \<and> combo (run [Start, Spawn 0, Escape (\<lambda>k. 0)] (initial None)) = 0
   \<and> tvs (smashTV 0 sample_rect (run [Start, Spawn 0, Escape (\<lambda>k. 0)] (initial None)))
       = tvs (run [Start, Spawn 0, Escape (\<lambda>k. 0)] (initial None))
   \<and> score (smashTV 0 sample_rect (run [Start, Spawn 0, Escape (\<lambda>k. 0)] (initial None))) = 100
   \<and> combo (smashTV 0 sample_rect (run [Start, Spawn 0, Escape (\<lambda>k. 0)] (initial None))) = 1
   \<and> sparkles (smashTV 0 sample_rect (run [Start, Spawn 0, Escape (\<lambda>k. 0)] (initial None)))
       = [\<lparr>sparkle_id = 0, sparkle_x = 5, sparkle_y = 5\<rparr>]
   \<and> timeouts (smashTV 0 sample_rect (run [Start, Spawn 0, Escape (\<lambda>k. 0)] (initial None)))
       = [RemoveSparkle 0, HideTV 0]"
  by code_simp

theorem smashTV_escaped_slot_scores_witness:
  "\<not> isVisible (tvs (run [Start, Spawn 0, Escape (\<lambda>k. 0)] (initial None)) ! 0)
   \<and> score (smashTV 0 sample_rect (run [Start, Spawn 0, Escape (\<lambda>k. 0)] (initial None)))
       = score (run [Start, Spawn 0, Escape (\<lambda>k. 0)] (initial None)) + 100"
  using smashTV_escaped_slot_scores by simp

text \<open>
  The same strike as a click: hole 0 was rendered with its slot revealed, the escape
  monitor has hidden the slot since, and the click is handled before the next render.
\<close>

lemma stale_click_on_escaped_slot:
  "isVisible (tvs (run [Start, Spawn 0] (initial None)) ! 0)
   \<and> \<not> isVisible (tvs (step (Escape (\<lambda>k. 0)) (run [Start, Spawn 0] (initial None))) ! 0)
   \<and> score (step (Escape (\<lambda>k. 0)) (run [Start, Spawn 0] (initial None))) = 0
   \<and> score (staleClick (run [Start, Spawn 0] (initial None)) 0 sample_rect
        (step (Escape (\<lambda>k. 0)) (run [Start, Spawn 0] (initial None)))) = 100
   \<and> tvs (staleClick (run [Start, Spawn 0] (initial None)) 0 sample_rect
        (step (Escape (\<lambda>k. 0)) (run [Start, Spawn 0] (initial None))))
       = tvs (step (Escape (\<lambda>k. 0)) (run [Start, Spawn 0] (initial None)))"
  by code_simp

section \<open>Escape monitor\<close>

text \<open>
  The threshold is the double with mantissa \<open>5404319552844595\<close> and exponent \<open>-55\<close>, a
  little below the decimal \<open>0.15\<close>.
\<close>

lemma escape_threshold_is_double_of_015:
  "escape_threshold = 5404319552844595 / 2 ^ 55"
  "escape_threshold < 15 / 100"
  "15 / 100 - escape_threshold < 1 / 2 ^ 57"
  by (simp_all add: escape_threshold_def)

lemma draw_of_Cons:
  "draw_of (tv # rest) 0 = 0"
  "draw_of (tv # rest) (Suc j) = (if live tv then 1 else 0) + draw_of rest j"
  by (simp_all add: draw_of_def)

lemma slot_escapes_Cons:
  "slot_escapes rnd (tv # rest) 0 = (live tv \<and> rnd 0 < escape_threshold)"
  "slot_escapes rnd (tv # rest) (Suc j) =
     slot_escapes (\<lambda>n. rnd ((if live tv then 1 else 0) + n)) rest j"
  by (simp_all add: slot_escapes_def draw_of_Cons)

lemma upt_Suc_shift: "[0..<Suc n] = 0 # map Suc [0..<n]"
  by (simp add: upt_conv_Cons map_Suc_upt del: upt_Suc)

lemma escape_count_Cons:
  "escape_count rnd (tv # rest) =
     (if live tv \<and> rnd 0 < escape_threshold then 1 else 0)
     + escape_count (\<lambda>n. rnd ((if live tv then 1 else 0) + n)) rest"
  by (simp add: escape_count_def upt_Suc_shift filter_map comp_def slot_escapes_Cons
      del: upt_Suc)

lemma checkTvs_map_char:
  "checkTvs_map rnd k (c, m) xs =
     (map (\<lambda>j. if slot_escapes (\<lambda>n. rnd (k + n)) xs j
                then (xs ! j)\<lparr>isVisible := False\<rparr> else xs ! j) [0..<length xs],
      (if escape_count (\<lambda>n. rnd (k + n)) xs = 0 then c else 0,
       m + int (escape_count (\<lambda>n. rnd (k + n)) xs)))"
proof (induction xs arbitrary: k c m)
  case Nil
  show ?case by (simp add: escape_count_def)
next
  case (Cons tv rest)
  have shift: "(\<lambda>n. rnd (Suc k + n)) = (\<lambda>n. rnd (k + (1 + n)))"
    by (simp add: fun_eq_iff)
  show ?case
    by (simp add: Cons.IH upt_Suc_shift comp_def slot_escapes_Cons escape_count_Cons
        live_def [symmetric] shift del: upt_Suc)
qed


lemma checkTvs_char:
  "checkTvs rnd s =
     s\<lparr>tvs := map (\<lambda>j. if slot_escapes rnd (tvs s) j
                         then (tvs s ! j)\<lparr>isVisible := False\<rparr> else tvs s ! j)
                   [0..<length (tvs s)],
       combo := (if escape_count rnd (tvs s) = 0 then combo s else 0),
       missedCount := missedCount s + int (escape_count rnd (tvs s))\<rparr>"
  by (simp add: checkTvs_def checkTvs_map_char)

lemma step_Escape:
  "gameState s = Playing \<Longrightarrow> step (Escape rnd) s = checkTvs rnd s"
  by (simp add: step_def checkTvs_char saveHighScore_Playing)

text \<open>
  C8. A firing of the escape monitor while playing hides exactly the slots that are
  revealed and unstruck and whose draw is below the threshold, and leaves every other
  slot as it is; each escaping slot adds 1 to missedCount, and the combo is 0 afterwards
  if any slot escaped and unchanged otherwise. Score, clock and phase are not touched.
  Outside the playing phase the monitor does not run.
\<close>

theorem escape_firing:
  "(gameState s = Playing \<longrightarrow>
      tvs (step (Escape rnd) s) =
        map (\<lambda>j. if slot_escapes rnd (tvs s) j
                  then (tvs s ! j)\<lparr>isVisible := False\<rparr> else tvs s ! j)
            [0..<length (tvs s)]
      \<and> missedCount (step (Escape rnd) s) = missedCount s + int (escape_count rnd (tvs s))
      \<and> combo (step (Escape rnd) s) = (if escape_count rnd (tvs s) = 0 then combo s else 0)
      \<and> score (step (Escape rnd) s) = score s
      \<and> timeLeft (step (Escape rnd) s) = timeLeft s
      \<and> gameState (step (Escape rnd) s) = Playing)
   \<and> (gameState s \<noteq> Playing \<longrightarrow> step (Escape rnd) s = s)
   \<and> (j < length (tvs s) \<longrightarrow>
        slot_escapes rnd (tvs s) j =
          (isVisible (tvs s ! j) \<and> \<not> isSmashed (tvs s ! j)
           \<and> rnd (length (filter (\<lambda>tv. isVisible tv \<and> \<not> isSmashed tv) (take j (tvs s))))
               < escape_threshold))"
proof -
  have "step (Escape rnd) s = s" if "gameState s \<noteq> Playing"
    using that by (simp add: step_def)
  moreover have "live = (\<lambda>tv. isVisible tv \<and> \<not> isSmashed tv)"
    by (simp add: fun_eq_iff live_def)
  ultimately show ?thesis
    by (simp add: step_Escape checkTvs_char slot_escapes_def draw_of_def live_def)
qed

theorem escape_firing_witness:
  "gameState (run [Start, Spawn 0, Click 0 sample_rect, Spawn 4, Spawn 3] (initial None))
     = Playing
   \<and> combo (run [Start, Spawn 0, Click 0 sample_rect, Spawn 4, Spawn 3] (initial None)) = 1
   \<and> missedCount (run [Start, Spawn 0, Click 0 sample_rect, Spawn 4, Spawn 3] (initial None)) = 0
   \<and> missedCount (step (Escape (\<lambda>k. 1/8))
        (run [Start, Spawn 0, Click 0 sample_rect, Spawn 4, Spawn 3] (initial None))) = 2
   \<and> combo (step (Escape (\<lambda>k. 1/8))
        (run [Start, Spawn 0, Click 0 sample_rect, Spawn 4, Spawn 3] (initial None))) = 0
   \<and> step (Escape (\<lambda>k. 1/8)) (initial None) = initial None"
proof -
  let ?s = "run [Start, Spawn 0, Click 0 sample_rect, Spawn 4, Spawn 3] (initial None)"
  have p: "gameState ?s = Playing" "combo ?s = 1" "missedCount ?s = 0"
    by code_simp+
  have n: "escape_count (\<lambda>k. 1/8) (tvs ?s) = 2"
    by code_simp
  have i: "gameState (initial None) \<noteq> Playing"
    by code_simp
  from escape_firing [of ?s "\<lambda>k. 1/8"] p n
  have "missedCount (step (Escape (\<lambda>k. 1/8)) ?s) = 2" "combo (step (Escape (\<lambda>k. 1/8)) ?s) = 0"
    by simp_all
  moreover from escape_firing [of "initial None" "\<lambda>k. 1/8"] i
  have "step (Escape (\<lambda>k. 1/8)) (initial None) = initial None"
    by blast
  ultimately show ?thesis
    using p by blast
qed

section \<open>Missed count\<close>

lemma handle_missedCount:
  "missedCount (handle e s) =
     (case e of
        Start \<Rightarrow> if gameState s = Idle \<or> gameState s = Ended then 0 else missedCount s
      | Escape rnd \<Rightarrow>
          if gameState s = Playing then missedCount s + int (escape_count rnd (tvs s))
          else missedCount s
      | _ \<Rightarrow> missedCount s)"
proof (cases e)
  case (Timeout k)
  then show ?thesis
    by (cases "timeouts s ! k") simp_all
qed (auto simp: startGame_fields timerTick_def checkTvs_char holeClick_def smashTV_def
        smashTV_closure_def Let_def
      split: option.splits)

lemma step_missedCount_mono: "e \<noteq> Start \<Longrightarrow> missedCount s \<le> missedCount (step e s)"
  by (simp add: step_frame handle_missedCount split: event.splits)

lemma run_missedCount_mono: "Start \<notin> set es \<Longrightarrow> missedCount s \<le> missedCount (run es s)"
proof (induction es arbitrary: s)
  case Nil
  show ?case by simp
next
  case (Cons e es)
  then have "missedCount s \<le> missedCount (step e s)"
    by (auto intro: step_missedCount_mono)
  also from Cons have "\<dots> \<le> missedCount (run es (step e s))"
    by simp
  finally show ?case by simp
qed

text \<open>
  C10. missedCount changes in two ways only: the start button sets it to 0, and a firing
  of the escape monitor adds 1 for each slot that escapes. Every other event, and
  \<open>smashTV\<close> with any id, leaves it as it is; so it never decreases along events other
  than the start.
\<close>

theorem missedCount_only_grows:
  "missedCount (step e s) =
     (case e of
        Start \<Rightarrow> if gameState s = Idle \<or> gameState s = Ended then 0 else missedCount s
      | Escape rnd \<Rightarrow>
          if gameState s = Playing then missedCount s + int (escape_count rnd (tvs s))
          else missedCount s
      | _ \<Rightarrow> missedCount s)
   \<and> (e \<noteq> Start \<longrightarrow> missedCount s \<le> missedCount (step e s))
   \<and> (Start \<notin> set es \<longrightarrow> missedCount s \<le> missedCount (run es s))
   \<and> missedCount (smashTV i rect s) = missedCount s"
proof (intro conjI impI)
  show "missedCount (smashTV i rect s) = missedCount s"
    by (simp add: smashTV_def smashTV_closure_def Let_def)
  show "missedCount s \<le> missedCount (step e s)" if "e \<noteq> Start"
    using that by (rule step_missedCount_mono)
  show "missedCount s \<le> missedCount (run es s)" if "Start \<notin> set es"
    using that by (rule run_missedCount_mono)
qed (simp only: step_frame handle_missedCount)

theorem missedCount_only_grows_witness:
  "missedCount (run [Start, Spawn 0, Escape (\<lambda>k. 0)] (initial None)) = 1
   \<and> missedCount (run [Start, Spawn 0, Escape (\<lambda>k. 0)] (initial None))
       \<le> missedCount (step (Click 0 sample_rect) (run [Start, Spawn 0, Escape (\<lambda>k. 0)] (initial None)))
   \<and> missedCount (run [Start, Spawn 0, Escape (\<lambda>k. 0)] (initial None))
       \<le> missedCount (run [Spawn 0, Escape (\<lambda>k. 0), Tick]
             (run [Start, Spawn 0, Escape (\<lambda>k. 0)] (initial None)))"
proof -
  let ?s = "run [Start, Spawn 0, Escape (\<lambda>k. 0)] (initial None)"
  have "missedCount ?s = 1"
    by code_simp
  moreover have "missedCount ?s \<le> missedCount (step (Click 0 sample_rect) ?s)"
    using missedCount_only_grows [of "Click 0 sample_rect" ?s] by simp
  moreover have "missedCount ?s \<le> missedCount (run [Spawn 0, Escape (\<lambda>k. 0), Tick] ?s)"
    using missedCount_only_grows [of _ ?s "[Spawn 0, Escape (\<lambda>k. 0), Tick]"] by simp
  ultimately show ?thesis
    by blast
qed

section \<open>What each event does to each cell\<close>

lemma runTimeout_frame:
  "score (runTimeout t s) = score s" "highScore (runTimeout t s) = highScore s"
  "timeLeft (runTimeout t s) = timeLeft s" "gameState (runTimeout t s) = gameState s"
  "combo (runTimeout t s) = combo s" "missedCount (runTimeout t s) = missedCount s"
  "storage (runTimeout t s) = storage s" "timeouts (runTimeout t s) = timeouts s"
  by (cases t; simp)+

lemma handle_highScore: "highScore (handle e s) = highScore s"
  by (cases e)
     (auto simp: startGame_def timerTick_def checkTvs_char holeClick_def smashTV_def
        smashTV_closure_def Let_def
        runTimeout_frame split: option.splits)

lemma handle_storage: "storage (handle e s) = storage s"
  by (cases e)
     (auto simp: startGame_def timerTick_def checkTvs_char holeClick_def smashTV_def
        smashTV_closure_def Let_def
        runTimeout_frame split: option.splits)

lemma handle_gameState:
  "gameState (handle e s) =
     (case e of
        Start \<Rightarrow> if gameState s = Idle \<or> gameState s = Ended then Playing else gameState s
      | Tick \<Rightarrow> if gameState s = Playing \<and> timeLeft s \<le> 1 then Ended else gameState s
      | _ \<Rightarrow> gameState s)"
  by (cases e)
     (auto simp: startGame_def timerTick_def checkTvs_char holeClick_def smashTV_def
        smashTV_closure_def Let_def
        runTimeout_frame split: option.splits)

lemma handle_timeLeft:
  "timeLeft (handle e s) =
     (case e of
        Start \<Rightarrow> if gameState s = Idle \<or> gameState s = Ended then 30 else timeLeft s
      | Tick \<Rightarrow> if gameState s = Playing
                then (if timeLeft s \<le> 1 then 0 else timeLeft s - 1) else timeLeft s
      | _ \<Rightarrow> timeLeft s)"
  by (cases e)
     (auto simp: startGame_def timerTick_def checkTvs_char holeClick_def smashTV_def
        smashTV_closure_def Let_def
        runTimeout_frame split: option.splits)

lemma handle_score:
  "score (handle e s) =
     (case e of
        Start \<Rightarrow> if gameState s = Idle \<or> gameState s = Ended then 0 else score s
      | Click n rect \<Rightarrow>
          if valid_strike n s then score s + 100 * min (combo s + 1) 5 else score s
      | _ \<Rightarrow> score s)"
  by (cases e)
     (auto simp: startGame_def timerTick_def checkTvs_char holeClick_def smashTV_def
        smashTV_closure_def Let_def
        runTimeout_frame valid_strike_def split: option.splits)

lemma handle_combo:
  "combo (handle e s) =
     (case e of
        Start \<Rightarrow> if gameState s = Idle \<or> gameState s = Ended then 0 else combo s
      | Escape rnd \<Rightarrow>
          if gameState s = Playing \<and> escape_count rnd (tvs s) \<noteq> 0 then 0 else combo s
      | Click n rect \<Rightarrow> if valid_strike n s then combo s + 1 else combo s
      | _ \<Rightarrow> combo s)"
  by (cases e)
     (auto simp: startGame_def timerTick_def checkTvs_char holeClick_def smashTV_def
        smashTV_closure_def Let_def
        runTimeout_frame valid_strike_def split: option.splits)

lemma step_highScore:
  "highScore (step e s) =
     (if (gameState (handle e s) \<noteq> gameState s \<or> score (handle e s) \<noteq> score s)
         \<and> gameState (handle e s) = Ended \<and> highScore s < score (handle e s)
      then score (handle e s) else highScore s)"
  by (auto simp: step_def Let_def saveHighScore_def handle_highScore)

lemma step_storage:
  "storage (step e s) =
     (if (gameState (handle e s) \<noteq> gameState s \<or> score (handle e s) \<noteq> score s)
         \<and> gameState (handle e s) = Ended \<and> highScore s < score (handle e s)
      then Some (score (handle e s)) else storage s)"
  by (auto simp: step_def Let_def saveHighScore_def handle_highScore handle_storage)

lemma step_highScore_mono: "highScore s \<le> highScore (step e s)"
  by (simp add: step_highScore)

lemma run_highScore_mono: "highScore s \<le> highScore (run es s)"
proof (induction es arbitrary: s)
  case Nil
  show ?case by simp
next
  case (Cons e es)
  have "highScore s \<le> highScore (step e s)"
    by (rule step_highScore_mono)
  also have "\<dots> \<le> highScore (run es (step e s))"
    by (rule Cons.IH)
  finally show ?case by simp
qed


lemma step_while_not_playing:
  assumes "gameState s \<noteq> Playing" "e \<noteq> Start"
  shows "gameState (step e s) = gameState s" "timeLeft (step e s) = timeLeft s"
    "score (step e s) = score s" "highScore (step e s) = highScore s"
    "storage (step e s) = storage s"
  using assms
  by (auto simp: step_frame step_highScore step_storage handle_gameState handle_timeLeft
      handle_score valid_strike_def simp del: handle.simps split: event.splits)

lemma step_while_playing:
  assumes "gameState s = Playing"
  shows "gameState (step e s) = (if e = Tick \<and> timeLeft s \<le> 1 then Ended else Playing)"
    "timeLeft (step e s) =
       (if e = Tick then (if timeLeft s \<le> 1 then 0 else timeLeft s - 1) else timeLeft s)"
    "highScore (step e s) =
       (if e = Tick \<and> timeLeft s \<le> 1 then max (highScore s) (score s) else highScore s)"
    "storage (step e s) =
       (if e = Tick \<and> timeLeft s \<le> 1 \<and> highScore s < score s then Some (score s)
        else storage s)"
  using assms
  by (auto simp: step_frame step_highScore step_storage handle_gameState handle_timeLeft
      handle_score simp del: handle.simps split: event.splits)

lemma clock_inv_step: "clock_inv s \<Longrightarrow> clock_inv (step e s)"
  by (auto simp: clock_inv_def step_frame handle_gameState handle_timeLeft
      simp del: handle.simps split: event.splits phase.splits)

lemma clock_inv_initial: "clock_inv (initial saved)"
  by (simp add: clock_inv_def initial_def)

lemma reachable_clock_inv: "reachable s \<Longrightarrow> clock_inv s"
  by (induction rule: reachable.induct) (simp_all add: clock_inv_initial clock_inv_step)

lemma ticks_simps:
  "ticks [] = 0" "ticks (e # es) = (if e = Tick then 1 else 0) + ticks es"
  by (cases e; simp add: ticks_def)+

lemma after_round:
  assumes "gameState s \<noteq> Playing" "Start \<notin> set es"
  shows "gameState (run es s) = gameState s \<and> timeLeft (run es s) = timeLeft s
       \<and> score (run es s) = score s \<and> highScore (run es s) = highScore s
       \<and> storage (run es s) = storage s
       \<and> endings es s = 0 \<and> settlements es s = 0"
  using assms
proof (induction es arbitrary: s)
  case Nil
  show ?case by simp
next
  case (Cons e es)
  then have e: "e \<noteq> Start" "Start \<notin> set es"
    by auto
  note st = step_while_not_playing [OF Cons.prems(1) e(1)]
  from st(1) Cons.prems(1) have "gameState (step e s) \<noteq> Playing"
    by simp
  from Cons.IH [OF this e(2)] st Cons.prems(1) show ?case
    by simp
qed


lemma step_Tick_score: "score (step Tick s) = score s"
  by (simp add: step_frame handle_score del: handle.simps)

lemma during_round:
  assumes "gameState s = Playing" "1 \<le> timeLeft s" "Start \<notin> set es"
  shows "timeLeft (run es s) = max 0 (timeLeft s - int (ticks es))
       \<and> gameState (run es s) = (if int (ticks es) < timeLeft s then Playing else Ended)
       \<and> endings es s = (if int (ticks es) < timeLeft s then 0 else 1)
       \<and> settlements es s \<le> endings es s
       \<and> highScore (run es s) =
           (if int (ticks es) < timeLeft s then highScore s
            else max (highScore s) (score (run es s)))
       \<and> storage (run es s) =
           (if int (ticks es) < timeLeft s \<or> score (run es s) \<le> highScore s then storage s
            else Some (score (run es s)))"
  using assms
proof (induction es arbitrary: s)
  case Nil
  then show ?case by (simp add: ticks_simps)
next
  case (Cons e es)
  then have es: "Start \<notin> set es"
    by simp
  note st = step_while_playing [OF Cons.prems(1), of e]
  show ?case
  proof (cases "e = Tick \<and> timeLeft s \<le> 1")
    case True
    with Cons.prems(2) have one: "timeLeft s = 1"
      by simp
    from True st have ended: "gameState (step e s) \<noteq> Playing" "gameState (step e s) = Ended"
      by simp_all
    note ar = after_round [OF ended(1) es]
    from True have sc: "score (step e s) = score s"
      by (simp add: step_Tick_score)
    from True one st ar ended sc Cons.prems(1) show ?thesis
      by (simp add: ticks_simps)
  next
    case False
    with st Cons.prems(2) have pl: "gameState (step e s) = Playing" "1 \<le> timeLeft (step e s)"
      by (auto split: if_splits)
    note ih = Cons.IH [OF pl es]
    from False st have same: "highScore (step e s) = highScore s" "storage (step e s) = storage s"
      by auto
    show ?thesis
    proof (cases "e = Tick")
      case True
      with False st have "timeLeft (step e s) = timeLeft s - 1"
        by simp
      with ih same pl True Cons.prems(1) show ?thesis
        by (simp add: ticks_simps)
    next
      case nt: False
      with st have "timeLeft (step e s) = timeLeft s"
        by simp
      with ih same pl nt Cons.prems(1) show ?thesis
        by (simp add: ticks_simps)
    qed
  qed
qed


lemma round_from_start:
  assumes "gameState s = Idle \<or> gameState s = Ended" "Start \<notin> set es"
  shows "timeLeft (run es (step Start s)) = max 0 (30 - int (ticks es))"
    "gameState (run es (step Start s)) = (if ticks es < 30 then Playing else Ended)"
    "endings es (step Start s) = (if ticks es < 30 then 0 else 1)"
    "settlements es (step Start s) \<le> endings es (step Start s)"
    "highScore (run es (step Start s)) =
       (if ticks es < 30 then highScore s
        else max (highScore s) (score (run es (step Start s))))"
    "storage (run es (step Start s)) =
       (if ticks es < 30 \<or> score (run es (step Start s)) \<le> highScore s then storage s
        else Some (score (run es (step Start s))))"
proof -
  have "gameState (step Start s) = Playing" "1 \<le> timeLeft (step Start s)"
    and 0: "timeLeft (step Start s) = 30" "highScore (step Start s) = highScore s"
      "storage (step Start s) = storage s"
    using assms(1) by (simp_all add: step_Start startGame_fields)
  from during_round [OF this(1,2) assms(2)] 0
  show "timeLeft (run es (step Start s)) = max 0 (30 - int (ticks es))"
    "gameState (run es (step Start s)) = (if ticks es < 30 then Playing else Ended)"
    "endings es (step Start s) = (if ticks es < 30 then 0 else 1)"
    "settlements es (step Start s) \<le> endings es (step Start s)"
    "highScore (run es (step Start s)) =
       (if ticks es < 30 then highScore s
        else max (highScore s) (score (run es (step Start s))))"
    "storage (run es (step Start s)) =
       (if ticks es < 30 \<or> score (run es (step Start s)) \<le> highScore s then storage s
        else Some (score (run es (step Start s))))"
    by simp_all
qed

section \<open>Round clock\<close>

text \<open>
  C4. In a reachable playing state a clock tick takes 1 off timeLeft, and the phase
  becomes ended exactly when the result is 0; the clock is never negative; outside the
  playing phase a tick does nothing. Over a round (the start button, then any events
  without another start) timeLeft is 30 minus the number of ticks, held at 0; the phase
  is playing before the 30th tick and ended from it on; the phase goes from playing to
  ended once if there are 30 ticks and never otherwise; and the save effect writes at
  most as often.
\<close>

theorem round_clock:
  "(reachable s \<longrightarrow> 0 \<le> timeLeft s)
   \<and> (reachable s \<and> gameState s = Playing \<longrightarrow>
        timeLeft (step Tick s) = timeLeft s - 1
        \<and> gameState (step Tick s) = (if timeLeft (step Tick s) = 0 then Ended else Playing))
   \<and> (gameState s \<noteq> Playing \<longrightarrow> step Tick s = s)
   \<and> ((gameState s = Idle \<or> gameState s = Ended) \<and> Start \<notin> set es \<longrightarrow>
        timeLeft (run es (step Start s)) = max 0 (30 - int (ticks es))
        \<and> gameState (run es (step Start s)) = (if ticks es < 30 then Playing else Ended)
        \<and> endings es (step Start s) = (if ticks es < 30 then 0 else 1)
        \<and> settlements es (step Start s) \<le> endings es (step Start s))"
proof (intro conjI impI)
  assume "reachable s"
  from reachable_clock_inv [OF this] show "0 \<le> timeLeft s"
    by (auto simp: clock_inv_def split: phase.splits)
next
  assume "reachable s \<and> gameState s = Playing"
  then have p: "gameState s = Playing" and "clock_inv s"
    by (simp_all add: reachable_clock_inv)
  then have t: "1 \<le> timeLeft s"
    by (simp add: clock_inv_def)
  from step_while_playing(1,2) [OF p, of Tick] t
  show "timeLeft (step Tick s) = timeLeft s - 1"
    "gameState (step Tick s) = (if timeLeft (step Tick s) = 0 then Ended else Playing)"
    by auto
next
  assume "gameState s \<noteq> Playing"
  then show "step Tick s = s"
    by (simp add: step_def)
next
  assume a: "(gameState s = Idle \<or> gameState s = Ended) \<and> Start \<notin> set es"
  then have a1: "gameState s = Idle \<or> gameState s = Ended" and a2: "Start \<notin> set es"
    by simp_all
  note r = round_from_start [OF a1 a2]
  show "timeLeft (run es (step Start s)) = max 0 (30 - int (ticks es))"
    by (rule r(1))
  show "gameState (run es (step Start s)) = (if ticks es < 30 then Playing else Ended)"
    by (rule r(2))
  show "endings es (step Start s) = (if ticks es < 30 then 0 else 1)"
    by (rule r(3))
  show "settlements es (step Start s) \<le> endings es (step Start s)"
    by (rule r(4))
qed

theorem round_clock_witness:
  "reachable (step Start (initial None))
   \<and> gameState (step Start (initial None)) = Playing
   \<and> timeLeft (step Tick (step Start (initial None))) = 29
   \<and> gameState (step Tick (step Start (initial None))) = Playing
   \<and> step Tick (initial None) = initial None
   \<and> timeLeft (run (replicate 29 Tick @ [Spawn 0, Tick, Timeout 0, Tick])
        (step Start (initial None))) = 0
   \<and> gameState (run (replicate 29 Tick @ [Spawn 0, Tick, Timeout 0, Tick])
        (step Start (initial None))) = Ended
   \<and> endings (replicate 29 Tick @ [Spawn 0, Tick, Timeout 0, Tick])
        (step Start (initial None)) = 1
   \<and> gameState (run (replicate 29 Tick @ [Spawn 0]) (step Start (initial None))) = Playing
   \<and> timeLeft (run (replicate 29 Tick @ [Spawn 0]) (step Start (initial None))) = 1"
proof -
  let ?s = "step Start (initial None)"
  let ?es = "replicate 29 Tick @ [Spawn 0, Tick, Timeout 0, Tick]"
  let ?fs = "replicate 29 Tick @ [Spawn 0]"
  have r: "reachable ?s"
    by (rule reachable_step) (rule reachable_initial)
  have p: "gameState ?s = Playing" "timeLeft ?s = 30"
    by code_simp+
  have i: "gameState (initial None) = Idle" "gameState (initial None) \<noteq> Playing"
    by code_simp+
  have n: "ticks ?es = 31" "ticks ?fs = 29"
    by code_simp+
  have m: "Start \<notin> set ?es" "Start \<notin> set ?fs"
    by simp_all
  from round_clock [of ?s] r p
  have "timeLeft (step Tick ?s) = 29" "gameState (step Tick ?s) = Playing"
    by simp_all
  moreover from round_clock [of "initial None"] i
  have "step Tick (initial None) = initial None"
    by blast
  moreover from round_clock [of "initial None" ?es] i m n
  have "timeLeft (run ?es ?s) = 0" "gameState (run ?es ?s) = Ended" "endings ?es ?s = 1"
    by simp_all
  moreover from round_clock [of "initial None" ?fs] i m n
  have "timeLeft (run ?fs ?s) = 1" "gameState (run ?fs ?s) = Playing"
    by simp_all
  ultimately show ?thesis
    using r p by blast
qed

section \<open>Best score\<close>

text \<open>
  C3. The tick that ends a round leaves highScore at the maximum of the previous
  highScore and the score, and writes the score to storage exactly when it is strictly
  greater than the previous highScore. Over a round, highScore is the value before the
  round while playing, and that maximum once ended. No event ever lowers highScore.
\<close>

theorem best_score_settlement:
  "(gameState s = Playing \<and> timeLeft s \<le> 1 \<longrightarrow>
      gameState (step Tick s) = Ended
      \<and> highScore (step Tick s) = max (highScore s) (score s)
      \<and> storage (step Tick s) = (if highScore s < score s then Some (score s) else storage s))
   \<and> ((gameState s = Idle \<or> gameState s = Ended) \<and> Start \<notin> set es \<longrightarrow>
        highScore (run es (step Start s)) =
          (if gameState (run es (step Start s)) = Ended
           then max (highScore s) (score (run es (step Start s))) else highScore s)
        \<and> storage (run es (step Start s)) =
          (if gameState (run es (step Start s)) = Ended
              \<and> highScore s < score (run es (step Start s))
           then Some (score (run es (step Start s))) else storage s))
   \<and> highScore s \<le> highScore (step e s)
   \<and> highScore s \<le> highScore (run es s)"
proof (intro conjI impI)
  assume "gameState s = Playing \<and> timeLeft s \<le> 1"
  then have p: "gameState s = Playing" and t: "timeLeft s \<le> 1"
    by simp_all
  from step_while_playing [OF p, of Tick] t
  show "gameState (step Tick s) = Ended"
    "highScore (step Tick s) = max (highScore s) (score s)"
    "storage (step Tick s) = (if highScore s < score s then Some (score s) else storage s)"
    by simp_all
next
  assume a: "(gameState s = Idle \<or> gameState s = Ended) \<and> Start \<notin> set es"
  then have a1: "gameState s = Idle \<or> gameState s = Ended" and a2: "Start \<notin> set es"
    by simp_all
  note r = round_from_start [OF a1 a2]
  from r(2,5)
  show "highScore (run es (step Start s)) =
          (if gameState (run es (step Start s)) = Ended
           then max (highScore s) (score (run es (step Start s))) else highScore s)"
    by simp
  from r(2,6)
  show "storage (run es (step Start s)) =
          (if gameState (run es (step Start s)) = Ended
              \<and> highScore s < score (run es (step Start s))
           then Some (score (run es (step Start s))) else storage s)"
    by (simp add: not_less)
next
  show "highScore s \<le> highScore (step e s)"
    by (rule step_highScore_mono)
  show "highScore s \<le> highScore (run es s)"
    by (rule run_highScore_mono)
qed

theorem best_score_settlement_witness:
  "gameState (initial None) = Idle
   \<and> highScore (initial None) = 0
   \<and> score (run ([Spawn 0, Click 0 sample_rect] @ replicate 30 Tick)
        (step Start (initial None))) = 100
   \<and> highScore (run ([Spawn 0, Click 0 sample_rect] @ replicate 30 Tick)
        (step Start (initial None))) = 100
   \<and> storage (run ([Spawn 0, Click 0 sample_rect] @ replicate 30 Tick)
        (step Start (initial None))) = Some 100
   \<and> highScore (run ([Spawn 0, Click 0 sample_rect] @ replicate 30 Tick)
        (step Start (initial (Some 500)))) = 500
   \<and> storage (run ([Spawn 0, Click 0 sample_rect] @ replicate 30 Tick)
        (step Start (initial (Some 500)))) = Some 500"
proof -
  let ?es = "[Spawn 0, Click 0 sample_rect] @ replicate 30 Tick"
  let ?a = "initial None" and ?b = "initial (Some 500)"
  have i: "gameState ?a = Idle" "highScore ?a = 0" "storage ?a = None"
    "gameState ?b = Idle" "highScore ?b = 500" "storage ?b = Some 500"
    by code_simp+
  have m: "Start \<notin> set ?es"
    by simp
  have f: "gameState (run ?es (step Start ?a)) = Ended" "score (run ?es (step Start ?a)) = 100"
    "gameState (run ?es (step Start ?b)) = Ended" "score (run ?es (step Start ?b)) = 100"
    by code_simp+
  from best_score_settlement [of ?a ?es] i m f
  have "highScore (run ?es (step Start ?a)) = 100" "storage (run ?es (step Start ?a)) = Some 100"
    by simp_all
  moreover from best_score_settlement [of ?b ?es] i m f
  have "highScore (run ?es (step Start ?b)) = 500" "storage (run ?es (step Start ?b)) = Some 500"
    by simp_all
  ultimately show ?thesis
    using i f by blast
qed

section \<open>Combo scoring\<close>

lemma sum_from_1_Suc:
  fixes f :: "nat \<Rightarrow> int"
  shows "(\<Sum>k = 1..Suc n. f k) = f 1 + (\<Sum>k = 1..n. f (Suc k))"
proof -
  have "(\<Sum>k = 1..Suc n. f k) = f 1 + (\<Sum>k = Suc 1..Suc n. f k)"
    by (rule sum.atLeast_Suc_atMost) simp
  also have "(\<Sum>k = Suc 1..Suc n. f k) = (\<Sum>k = 1..n. f (Suc k))"
    by (rule sum.shift_bounds_cl_Suc_ivl)
  finally show ?thesis .
qed

lemma step_combo_score:
  "combo (step e s) =
     (case e of
        Start \<Rightarrow> if gameState s = Idle \<or> gameState s = Ended then 0 else combo s
      | Escape rnd \<Rightarrow>
          if gameState s = Playing \<and> escape_count rnd (tvs s) \<noteq> 0 then 0 else combo s
      | Click n rect \<Rightarrow> if valid_strike n s then combo s + 1 else combo s
      | _ \<Rightarrow> combo s)"
  "score (step e s) =
     (case e of
        Start \<Rightarrow> if gameState s = Idle \<or> gameState s = Ended then 0 else score s
      | Click n rect \<Rightarrow>
          if valid_strike n s then score s + 100 * min (combo s + 1) 5 else score s
      | _ \<Rightarrow> score s)"
  by (simp_all only: step_frame handle_combo handle_score)

lemma chain_of_strikes:
  assumes "uninterrupted es s"
  shows "combo (run es s) = combo s + int (strikes_in es s)
       \<and> score (run es s) =
           score s + (\<Sum>k = 1..strikes_in es s. 100 * min (combo s + int k) 5)"
  using assms
proof (induction es arbitrary: s)
  case Nil
  show ?case by simp
next
  case (Cons e es)
  then have u: "uninterrupted es (step e s)"
    by simp
  note ih = Cons.IH [OF u]
  show ?case
  proof (cases "\<exists>n rect. e = Click n rect \<and> valid_strike n s")
    case True
    then obtain n rect where e: "e = Click n rect" and v: "valid_strike n s"
      by blast
    from e v have c: "combo (step e s) = combo s + 1"
      and p: "score (step e s) = score s + 100 * min (combo s + 1) 5"
      by (simp_all add: step_combo_score)
    from e v have n: "strikes_in (e # es) s = Suc (strikes_in es (step e s))"
      by simp
    have shift: "\<And>k. combo s + 1 + int k = combo s + int (Suc k)"
      by simp
    from ih show ?thesis
      unfolding n sum_from_1_Suc c p shift by simp
  next
    case False
    with Cons.prems have c: "combo (step e s) = combo s" and p: "score (step e s) = score s"
      by (auto simp: step_combo_score split: event.splits)
    from False have n: "strikes_in (e # es) s = strikes_in es (step e s)"
      by (auto split: event.splits)
    from ih show ?thesis
      unfolding n c p by simp
  qed
qed

lemma combo_nonneg_step: "0 \<le> combo s \<Longrightarrow> 0 \<le> combo (step e s)"
  by (auto simp: step_combo_score split: event.splits)

lemma reachable_combo_nonneg: "reachable s \<Longrightarrow> 0 \<le> combo s"
  by (induction rule: reachable.induct) (simp_all add: initial_def combo_nonneg_step)

lemma award_values: "0 \<le> (c::int) \<Longrightarrow> 100 * min (c + 1) 5 \<in> {100, 200, 300, 400, 500}"
proof -
  assume "0 \<le> c"
  then consider "c = 0" | "c = 1" | "c = 2" | "c = 3" | "4 \<le> c"
    by linarith
  then show ?thesis
    by cases simp_all
qed

text \<open>
  When every click is handled by the callback of the current render, as in \<open>step\<close>: a
  valid strike raises the combo by 1 and awards 100 times the new combo capped at 5,
  one of 100, 200, 300, 400, 500 in a reachable state. Starting with combo 0 (at round
  start, or after a firing in which a slot escaped) and running events with no start
  and no escape, the combo is the number \<open>N\<close> of valid strikes made and the score has
  grown by the sum of \<open>100 * min k 5\<close> for \<open>k\<close> from 1 to \<open>N\<close>.
\<close>

lemma combo_scoring_current_render:
  "(valid_strike n s \<longrightarrow>
      combo (step (Click n rect) s) = combo s + 1
      \<and> score (step (Click n rect) s) = score s + 100 * min (combo s + 1) 5)
   \<and> (reachable s \<and> valid_strike n s \<longrightarrow>
        score (step (Click n rect) s) - score s \<in> {100, 200, 300, 400, 500})
   \<and> (combo s = 0 \<and> uninterrupted es s \<longrightarrow>
        combo (run es s) = int (strikes_in es s)
        \<and> score (run es s) = score s + (\<Sum>k = 1..strikes_in es s. 100 * min (int k) 5))
   \<and> ((gameState s = Idle \<or> gameState s = Ended) \<and> uninterrupted es (step Start s) \<longrightarrow>
        score (run es (step Start s)) =
          (\<Sum>k = 1..strikes_in es (step Start s). 100 * min (int k) 5))
   \<and> (gameState s = Playing \<and> escape_count rnd (tvs s) \<noteq> 0
        \<and> uninterrupted es (step (Escape rnd) s) \<longrightarrow>
        score (run es (step (Escape rnd) s)) =
          score s + (\<Sum>k = 1..strikes_in es (step (Escape rnd) s). 100 * min (int k) 5))"
proof (intro conjI impI)
  assume v: "valid_strike n s"
  then show "combo (step (Click n rect) s) = combo s + 1"
    "score (step (Click n rect) s) = score s + 100 * min (combo s + 1) 5"
    by (simp_all add: step_combo_score)
next
  assume "reachable s \<and> valid_strike n s"
  then have "0 \<le> combo s" and v: "valid_strike n s"
    by (simp_all add: reachable_combo_nonneg)
  from award_values [OF this(1)] v
  show "score (step (Click n rect) s) - score s \<in> {100, 200, 300, 400, 500}"
    by (simp add: step_combo_score)
next
  assume a: "combo s = 0 \<and> uninterrupted es s"
  with chain_of_strikes [of es s]
  show "combo (run es s) = int (strikes_in es s)"
    "score (run es s) = score s + (\<Sum>k = 1..strikes_in es s. 100 * min (int k) 5)"
    by simp_all
next
  assume a: "(gameState s = Idle \<or> gameState s = Ended) \<and> uninterrupted es (step Start s)"
  then have "combo (step Start s) = 0" "score (step Start s) = 0"
    by (auto simp: step_combo_score)
  with chain_of_strikes [of es "step Start s"] a
  show "score (run es (step Start s)) =
          (\<Sum>k = 1..strikes_in es (step Start s). 100 * min (int k) 5)"
    by simp
next
  assume a: "gameState s = Playing \<and> escape_count rnd (tvs s) \<noteq> 0
        \<and> uninterrupted es (step (Escape rnd) s)"
  then have "combo (step (Escape rnd) s) = 0" "score (step (Escape rnd) s) = score s"
    by (simp_all add: step_combo_score)
  with chain_of_strikes [of es "step (Escape rnd) s"] a
  show "score (run es (step (Escape rnd) s)) =
          score s + (\<Sum>k = 1..strikes_in es (step (Escape rnd) s). 100 * min (int k) 5)"
    by simp
qed

lemma combo_scoring_example:
  "score (run [Spawn 3, Click 3 sample_rect] (step Start (initial None))) = 100
   \<and> score (run [Spawn 3, Click 3 sample_rect, Spawn 4, Click 5 sample_rect]
        (step Start (initial None))) = 300
   \<and> combo (run [Spawn 3, Click 3 sample_rect, Spawn 4, Click 5 sample_rect]
        (step Start (initial None))) = 2
   \<and> combo (step (Escape (\<lambda>k. 0))
        (run [Start, Spawn 3, Click 3 sample_rect, Spawn 4, Click 5 sample_rect, Spawn 0]
          (initial None))) = 0
   \<and> score (run [Spawn 0, Click 0 sample_rect]
        (step (Escape (\<lambda>k. 0))
          (run [Start, Spawn 3, Click 3 sample_rect, Spawn 4, Click 5 sample_rect, Spawn 0]
            (initial None)))) = 400"
proof -
  let ?a = "initial None"
  let ?s = "step Start (initial None)"
  let ?e1 = "[Spawn 3, Click 3 sample_rect]"
  let ?e2 = "[Spawn 3, Click 3 sample_rect, Spawn 4, Click 5 sample_rect]"
  let ?t = "run [Start, Spawn 3, Click 3 sample_rect, Spawn 4, Click 5 sample_rect, Spawn 0]
    (initial None)"
  let ?e3 = "[Spawn 0, Click 0 sample_rect]"
  have i: "gameState ?a = Idle"
    by code_simp
  have u: "uninterrupted ?e1 ?s" "uninterrupted ?e2 ?s" "combo ?s = 0" "score ?s = 0"
    by code_simp+
  have n: "strikes_in ?e1 ?s = 1" "strikes_in ?e2 ?s = 2"
    by code_simp+
  have s: "(\<Sum>k = 1..(1::nat). 100 * min (int k) 5) = 100"
    "(\<Sum>k = 1..(2::nat). 100 * min (int k) 5) = 300"
    by code_simp+
  have t: "gameState ?t = Playing" "escape_count (\<lambda>k. 0) (tvs ?t) \<noteq> 0" "score ?t = 300"
    "uninterrupted ?e3 (step (Escape (\<lambda>k. 0)) ?t)"
    "strikes_in ?e3 (step (Escape (\<lambda>k. 0)) ?t) = 1"
    "combo (step (Escape (\<lambda>k. 0)) ?t) = 0"
    by code_simp+
  from combo_scoring_current_render [of _ ?a _ ?e1] i u n s
  have "score (run ?e1 ?s) = 100"
    by simp
  moreover from combo_scoring_current_render [of _ ?s _ ?e2] u n s
  have "score (run ?e2 ?s) = 300" "combo (run ?e2 ?s) = 2"
    by simp_all
  moreover from combo_scoring_current_render [of _ ?t _ ?e3 "\<lambda>k. 0"] t s
  have "score (run ?e3 (step (Escape (\<lambda>k. 0)) ?t)) = 400"
    by simp
  ultimately show ?thesis
    using t by blast
qed

text \<open>A click of \<open>step\<close> is a click handled by the current render.\<close>

lemma click_is_staleClick: "handle (Click n rect) s = staleClick s n rect s"
  by (simp add: staleClick_def holeClick_def smashTV_def)



section \<open>Delayed actions across rounds\<close>

lemma handle_timeouts:
  "timeouts (handle e s) =
     (case e of
        Click n rect \<Rightarrow>
          if valid_strike n s
          then timeouts s @ [RemoveSparkle (sparkleIdRef s), HideTV (tv_id (tvs s ! n))]
          else timeouts s
      | Timeout k \<Rightarrow>
          if k < length (timeouts s) then take k (timeouts s) @ drop (Suc k) (timeouts s)
          else timeouts s
      | _ \<Rightarrow> timeouts s)"
  by (cases e)
     (auto simp: startGame_def timerTick_def checkTvs_char holeClick_def smashTV_def
        smashTV_closure_def Let_def
        runTimeout_frame valid_strike_def split: option.splits)

lemma step_Timeout:
  "step (Timeout k) s = handle (Timeout k) s"
  by (simp add: step_def Let_def runTimeout_frame)

lemma hidden_slot_fixed:
  "\<not> isVisible t \<Longrightarrow> \<not> isSmashed t \<Longrightarrow> \<not> showScore t \<Longrightarrow>
   t\<lparr>isVisible := False, isSmashed := False, showScore := False\<rparr> = t"
  by (cases t) simp

lemma all_hidden_fresh: "all_hidden fresh_tvs"
  by (simp add: all_hidden_def fresh_tvs_def list_all_iff)

lemma all_hidden_checkTvs_map:
  "all_hidden xs \<Longrightarrow> fst (checkTvs_map rnd k cm xs) = xs"
  by (induction rnd k cm xs rule: checkTvs_map.induct)
     (auto simp: all_hidden_def split: prod.splits)

lemma all_hidden_runTimeout: "all_hidden (tvs s) \<Longrightarrow> tvs (runTimeout x s) = tvs s"
proof (cases x)
  case (HideTV i)
  assume "all_hidden (tvs s)"
  then have "\<forall>t \<in> set (tvs s).
      (if tv_id t = i then t\<lparr>isVisible := False, isSmashed := False, showScore := False\<rparr> else t) = t"
    by (auto simp: all_hidden_def list_all_iff hidden_slot_fixed)
  with HideTV show ?thesis
    by (simp add: map_idI)
qed simp

lemma all_hidden_no_strike: "all_hidden (tvs s) \<Longrightarrow> \<not> valid_strike n s"
  by (auto simp: all_hidden_def valid_strike_def list_all_length)

lemma not_valid_strike_noop: "\<not> valid_strike n s \<Longrightarrow> handle (Click n rect) s = s"
  by (auto simp: valid_strike_def holeClick_def)

lemma spawn_keeps_timeouts: "timeouts (handle (Spawn k) s) = timeouts s"
  by (simp add: handle_timeouts del: handle.simps)

lemma baseInterval_ge: "400 \<le> baseInterval x"
  by (simp add: baseInterval_def)

lemma stamp_ok_mono: "stamp_ok ep p \<Longrightarrow> stamp_ok (Suc ep) p"
  by (cases "(ep, p)" rule: stamp_ok.cases) simp_all

lemma zip_without:
  assumes "length xs = length ys"
  shows "zip (take k xs @ drop (Suc k) xs) (take k ys @ drop (Suc k) ys)
       = take k (zip xs ys) @ drop (Suc k) (zip xs ys)"
  using assms by (simp add: take_zip drop_zip)

lemma set_without: "set (take k zs @ drop (Suc k) zs) \<subseteq> set zs"
  using set_take_subset [of k zs] set_drop_subset [of "Suc k" zs] by auto

lemma no_stale_at_spawn:
  assumes ok: "list_all (stamp_ok ep) (zip tos sts)"
    and late: "list_all (\<lambda>(due, delay, r). r = ep \<or> b < delay) sts"
    and b: "400 \<le> b"
  shows "\<not> list_ex (stale_reversion ep) (zip tos sts)"
proof
  assume "list_ex (stale_reversion ep) (zip tos sts)"
  then obtain x st where in_zip: "(x, st) \<in> set (zip tos sts)" and stale: "stale_reversion ep (x, st)"
    by (auto simp: list_ex_iff)
  obtain due delay r where st: "st = (due, delay, r)"
    by (cases st)
  from stale st obtain i where x: "x = HideTV i" and r: "r < ep"
    by (cases x) simp_all
  from ok in_zip x st have "delay = 300"
    by (auto simp: list_all_iff)
  moreover from in_zip have "st \<in> set sts"
    by (rule set_zip_rightD)
  with late st r have "b < delay"
    by (auto simp: list_all_iff)
  ultimately show False
    using b by simp
qed

lemma timing_inv_tstep:
  assumes inv: "timing_inv cs" and st: "tstep te cs = Some cs'"
  shows "timing_inv cs'"
proof -
  obtain t e where te: "te = (t, e)"
    by (cases te)
  obtain c s where cs: "cs = (c, s)"
    by (cases cs)
  from st te cs have ot: "on_time t e c s" and cs': "cs' = (advance t e c s, step e s)"
    by (auto simp: tstep_def split: if_splits)
  from inv cs have len: "length (stamps c) = length (timeouts s)"
    and ok: "list_all (stamp_ok (epoch c)) (zip (timeouts s) (stamps c))"
    and hid: "list_ex (stale_reversion (epoch c)) (zip (timeouts s) (stamps c))
        \<Longrightarrow> all_hidden (tvs s)"
    by (simp_all add: timing_inv_def)
  show ?thesis
  proof (cases e)
    case Start
    show ?thesis
    proof (cases "gameState s = Idle \<or> gameState s = Ended")
      case True
      with Start have "tvs (step e s) = fresh_tvs" "timeouts (step e s) = timeouts s"
        by (simp_all add: step_Start startGame_fields)
      moreover from ok have "list_all (stamp_ok (Suc (epoch c))) (zip (timeouts s) (stamps c))"
        by (auto simp: list_all_iff intro: stamp_ok_mono)
      ultimately show ?thesis
        using True Start len cs' by (simp add: timing_inv_def all_hidden_fresh)
    next
      case False
      with Start have "step e s = s"
        by (auto simp: step_def)
      with False Start len ok hid cs' show ?thesis
        by (auto simp: timing_inv_def)
    qed
  next
    case Tick
    then have "tvs (step e s) = tvs s" "timeouts (step e s) = timeouts s"
      by (simp_all add: step_frame timerTick_def)
    with Tick len ok hid cs' show ?thesis
      by (auto simp: timing_inv_def)
  next
    case (Spawn k)
    show ?thesis
    proof (cases "gameState s = Playing")
      case True
      with Spawn ot have "list_all (\<lambda>(due, delay, r). r = epoch c \<or> baseInterval (timeLeft s) < delay)
          (stamps c)"
        by simp
      from no_stale_at_spawn [OF ok this baseInterval_ge]
      have "\<not> list_ex (stale_reversion (epoch c)) (zip (timeouts s) (stamps c))" .
      moreover from Spawn have "timeouts (step e s) = timeouts s"
        by (simp only: step_frame spawn_keeps_timeouts)
      ultimately show ?thesis
        using True Spawn len ok cs' by (simp add: timing_inv_def)
    next
      case False
      with Spawn have "step e s = s"
        by (simp add: step_def)
      with False Spawn len ok hid cs' show ?thesis
        by (auto simp: timing_inv_def)
    qed
  next
    case (Escape rnd)
    have "timeouts (step e s) = timeouts s"
      using Escape by (simp add: step_frame checkTvs_char)
    moreover have "all_hidden (tvs (step e s))" if "all_hidden (tvs s)"
      using that Escape by (simp add: step_frame checkTvs_tvs all_hidden_checkTvs_map)
    ultimately show ?thesis
      using Escape len ok hid cs' by (auto simp: timing_inv_def)
  next
    case (Click n rect)
    show ?thesis
    proof (cases "valid_strike n s")
      case True
      then have "\<not> all_hidden (tvs s)"
        using all_hidden_no_strike by blast
      with hid have none: "\<not> list_ex (stale_reversion (epoch c)) (zip (timeouts s) (stamps c))"
        by blast
      from True Click
      have to: "timeouts (step e s)
          = timeouts s @ [RemoveSparkle (sparkleIdRef s), HideTV (tv_id (tvs s ! n))]"
        by (simp add: step_frame handle_timeouts del: handle.simps)
      from True Click
      have adv: "stamps (advance t e c s)
          = stamps c @ [(t + 500, 500, epoch c), (t + 300, 300, epoch c)]"
        "epoch (advance t e c s) = epoch c"
        by simp_all
      from len have z: "zip (timeouts (step e s)) (stamps (advance t e c s))
          = zip (timeouts s) (stamps c)
            @ [(RemoveSparkle (sparkleIdRef s), t + 500, 500, epoch c),
               (HideTV (tv_id (tvs s ! n)), t + 300, 300, epoch c)]"
        by (simp add: to adv)
      from len ok none show ?thesis
        unfolding cs' timing_inv_def fst_conv snd_conv z adv(2)
        by (simp add: to adv)
    next
      case False
      with Click have "step e s = s"
        by (simp add: step_def not_valid_strike_noop del: handle.simps)
      with False Click len ok hid cs' show ?thesis
        by (auto simp: timing_inv_def)
    qed
  next
    case (Timeout k)
    show ?thesis
    proof (cases "k < length (timeouts s)")
      case True
      with Timeout
      have to: "timeouts (step e s) = take k (timeouts s) @ drop (Suc k) (timeouts s)"
        by (simp add: step_frame handle_timeouts del: handle.simps)
      from True Timeout len
      have adv: "stamps (advance t e c s) = take k (stamps c) @ drop (Suc k) (stamps c)"
        "epoch (advance t e c s) = epoch c"
        by simp_all
      from len have z: "zip (timeouts (step e s)) (stamps (advance t e c s))
          = take k (zip (timeouts s) (stamps c)) @ drop (Suc k) (zip (timeouts s) (stamps c))"
        by (simp only: to adv zip_without)
      note sub = set_without [of k "zip (timeouts s) (stamps c)"]
      from ok sub have ok': "list_all (stamp_ok (epoch c))
          (zip (timeouts (step e s)) (stamps (advance t e c s)))"
        unfolding z by (auto simp: list_all_iff)
      have hid': "all_hidden (tvs (step e s))"
        if "list_ex (stale_reversion (epoch c))
          (zip (timeouts (step e s)) (stamps (advance t e c s)))"
      proof -
        from that sub have "list_ex (stale_reversion (epoch c)) (zip (timeouts s) (stamps c))"
          unfolding z by (auto simp: list_ex_iff)
        then have h: "all_hidden (tvs s)"
          by (rule hid)
        from True Timeout have "tvs (step e s) = tvs (runTimeout (timeouts s ! k) s)"
          by (cases "timeouts s ! k") (simp_all add: step_frame)
        with h show ?thesis
          by (simp add: all_hidden_runTimeout)
      qed
      from len have "length (stamps (advance t e c s)) = length (timeouts (step e s))"
        by (simp add: to adv)
      with ok' hid' show ?thesis
        unfolding cs' timing_inv_def fst_conv snd_conv adv(2) by blast
    next
      case False
      with Timeout len have "step e s = s" "stamps (advance t e c s) = stamps c"
        "epoch (advance t e c s) = epoch c"
        by (simp_all add: step_def)
      with len ok hid cs' show ?thesis
        by (auto simp: timing_inv_def)
    qed
  qed
qed

lemma timing_inv_run:
  "timing_inv cs \<Longrightarrow> timed_run tes cs = Some cs' \<Longrightarrow> timing_inv cs'"
proof (induction tes arbitrary: cs)
  case Nil
  then show ?case by simp
next
  case (Cons te tes)
  from Cons.prems(2) obtain cs1 where 1: "tstep te cs = Some cs1" and 2: "timed_run tes cs1 = Some cs'"
    by (auto split: option.splits)
  from timing_inv_tstep [OF Cons.prems(1) 1] 2 show ?case
    by (rule Cons.IH)
qed

lemma timing_inv_initial: "timing_inv (timing0, initial saved)"
  by (simp add: timing_inv_def timing0_def initial_def)

lemma stale_reversion_fixes_slots:
  assumes inv: "timing_inv (c, s)" and k: "k < length (timeouts s)"
    and h: "timeouts s ! k = HideTV i" and old: "stamp_round c k < epoch c"
  shows "tvs (step (Timeout k) s) = tvs s"
proof -
  from inv have len: "length (stamps c) = length (timeouts s)"
    and hid: "list_ex (stale_reversion (epoch c)) (zip (timeouts s) (stamps c))
        \<Longrightarrow> all_hidden (tvs s)"
    by (simp_all add: timing_inv_def)
  obtain due delay r where st: "stamps c ! k = (due, delay, r)"
    by (cases "stamps c ! k")
  with old have "r < epoch c"
    by (simp add: stamp_round_def)
  with h st have "stale_reversion (epoch c) (timeouts s ! k, stamps c ! k)"
    by simp
  moreover from k len have "(timeouts s ! k, stamps c ! k) \<in> set (zip (timeouts s) (stamps c))"
    by (auto simp: set_zip)
  ultimately have "list_ex (stale_reversion (epoch c)) (zip (timeouts s) (stamps c))"
    by (auto simp: list_ex_iff)
  then have "all_hidden (tvs s)"
    by (rule hid)
  moreover from k h have "tvs (step (Timeout k) s) = tvs (runTimeout (HideTV i) s)"
    by (simp add: step_frame)
  ultimately show ?thesis
    by (simp only: all_hidden_runTimeout)
qed

text \<open>
  Against C2 as stated. In the round \<open>late_strike_round\<close> slot 0 is struck at 29900 and
  the round ends at 30000. The sparkle removal and the reversion \<open>HideTV 0\<close> of that strike
  are still pending when the round has ended; they are still pending, with the stamps
  of round 1, when the start button has begun round 2 at 30100; and at 30200, when it is
  due, the reversion runs in round 2. Nothing has cancelled it.
\<close>

theorem reversion_not_cancelled_counterexample:
  "map_option (\<lambda>(c, s). (gameState s, timeouts s, stamps c, epoch c))
     (timed_run late_strike_round (timing0, initial None))
   = Some (Ended, [RemoveSparkle 0, HideTV 0], [(30400, 500, 1), (30200, 300, 1)], 1)
   \<and> map_option (\<lambda>(c, s). (gameState s, timeouts s, stamps c, epoch c))
     (timed_run (late_strike_round @ [(30100, Start)]) (timing0, initial None))
   = Some (Playing, [RemoveSparkle 0, HideTV 0], [(30400, 500, 1), (30200, 300, 1)], 2)
   \<and> map_option (\<lambda>(c, s). (gameState s, timeouts s, stamps c, epoch c))
     (timed_run (late_strike_round @ [(30100, Start), (30200, Timeout 1)])
       (timing0, initial None))
   = Some (Playing, [RemoveSparkle 0], [(30400, 500, 1)], 2)"
  by code_simp

text \<open>
  C2, amended. No event cancels a delayed action: the list of pending ones grows by the
  two actions of a valid strike, shrinks by the action that fires, and is left alone by
  every other event, the start button and the last tick of a round included. So a
  reversion scheduled in one round can fire in a later one. It still never changes the
  slot state of that later round: in every timed run from the initial state, a pending
  reversion that an earlier round scheduled leaves \<open>tvs\<close> as it is when it fires, and
  changes nothing but the list of pending actions. (It is due 300 ms after its strike,
  the first spawn of a round comes at least 400 ms after the start, and until then all
  nine slots are hidden and unstruck.)
\<close>

theorem stale_reversion_leaves_slots:
  "timeouts (step e s) =
     (case e of
        Click n rect \<Rightarrow>
          if valid_strike n s
          then timeouts s @ [RemoveSparkle (sparkleIdRef s), HideTV (tv_id (tvs s ! n))]
          else timeouts s
      | Timeout k \<Rightarrow>
          if k < length (timeouts s) then take k (timeouts s) @ drop (Suc k) (timeouts s)
          else timeouts s
      | _ \<Rightarrow> timeouts s)
   \<and> (timed_run tes (timing0, initial saved) = Some (c, s')
        \<and> k < length (timeouts s') \<and> timeouts s' ! k = HideTV i
        \<and> stamp_round c k < epoch c \<longrightarrow>
        tvs (step (Timeout k) s') = tvs s'
        \<and> step (Timeout k) s'
            = s'\<lparr>timeouts := take k (timeouts s') @ drop (Suc k) (timeouts s')\<rparr>)"
proof (intro conjI impI)
  show "timeouts (step e s) =
     (case e of
        Click n rect \<Rightarrow>
          if valid_strike n s
          then timeouts s @ [RemoveSparkle (sparkleIdRef s), HideTV (tv_id (tvs s ! n))]
          else timeouts s
      | Timeout k \<Rightarrow>
          if k < length (timeouts s) then take k (timeouts s) @ drop (Suc k) (timeouts s)
          else timeouts s
      | _ \<Rightarrow> timeouts s)"
    by (simp only: step_frame handle_timeouts)
next
  assume a: "timed_run tes (timing0, initial saved) = Some (c, s')
        \<and> k < length (timeouts s') \<and> timeouts s' ! k = HideTV i
        \<and> stamp_round c k < epoch c"
  then have "timing_inv (c, s')"
    using timing_inv_run [OF timing_inv_initial] by blast
  from stale_reversion_fixes_slots [OF this] a
  show same: "tvs (step (Timeout k) s') = tvs s'"
    by blast
  from a have "step (Timeout k) s'
      = s'\<lparr>timeouts := take k (timeouts s') @ drop (Suc k) (timeouts s'),
           tvs := tvs (step (Timeout k) s')\<rparr>"
    by (simp add: step_Timeout)
  then show "step (Timeout k) s'
      = s'\<lparr>timeouts := take k (timeouts s') @ drop (Suc k) (timeouts s')\<rparr>"
    unfolding same by simp
qed

theorem stale_reversion_leaves_slots_witness:
  "timeouts (step Start (snd (the (timed_run late_strike_round (timing0, initial None)))))
     = [RemoveSparkle 0, HideTV 0]
   \<and> timeouts (snd (the (timed_run (late_strike_round @ [(30100, Start)])
        (timing0, initial None)))) ! 1 = HideTV 0
   \<and> stamp_round (fst (the (timed_run (late_strike_round @ [(30100, Start)])
        (timing0, initial None)))) 1 = 1
   \<and> epoch (fst (the (timed_run (late_strike_round @ [(30100, Start)])
        (timing0, initial None)))) = 2
   \<and> tvs (step (Timeout 1) (snd (the (timed_run (late_strike_round @ [(30100, Start)])
        (timing0, initial None)))))
       = tvs (snd (the (timed_run (late_strike_round @ [(30100, Start)])
        (timing0, initial None))))
   \<and> timeouts (step (Timeout 1) (snd (the (timed_run (late_strike_round @ [(30100, Start)])
        (timing0, initial None))))) = [RemoveSparkle 0]"
proof -
  let ?r1 = "timed_run late_strike_round (timing0, initial None)"
  let ?r2 = "timed_run (late_strike_round @ [(30100, Start)]) (timing0, initial None)"
  let ?c = "fst (the ?r2)" and ?s = "snd (the ?r2)"
  have "?r2 \<noteq> None"
    by code_simp
  then have run: "?r2 = Some (?c, ?s)"
    by (cases ?r2) simp_all
  have f: "timeouts (snd (the ?r1)) = [RemoveSparkle 0, HideTV 0]"
    "timeouts ?s = [RemoveSparkle 0, HideTV 0]" "timeouts ?s ! 1 = HideTV 0"
    "stamp_round ?c 1 = 1" "epoch ?c = 2"
    by code_simp+
  from stale_reversion_leaves_slots [of Start "snd (the ?r1)"] f(1)
  have "timeouts (step Start (snd (the ?r1))) = [RemoveSparkle 0, HideTV 0]"
    by simp
  moreover from stale_reversion_leaves_slots [of _ _ "late_strike_round @ [(30100, Start)]"
      None ?c ?s 1 0] run f
  have "tvs (step (Timeout 1) ?s) = tvs ?s"
    by simp
  moreover from stale_reversion_leaves_slots [of "Timeout 1" ?s] f
  have "timeouts (step (Timeout 1) ?s) = [RemoveSparkle 0]"
    by simp
  ultimately show ?thesis
    using f by blast
qed

end
